theory Spec2Isabelle
  imports Main "HOL-Library.AList" "HOL-Library.Multiset"
begin

section \<open>Go strings and runes\<close>

text \<open>
  A Go \<open>string\<close> is a sequence of bytes; HOL's \<^typ>\<open>string\<close> is a list of
  \<^typ>\<open>char\<close>, and a \<^typ>\<open>char\<close> is one byte, so a Go string is a HOL string
  (\<open>len(key)\<close> is \<^const>\<open>length\<close>, \<open>key[0:n]\<close> is \<^const>\<open>take\<close>).
  A \<open>rune\<close> is an \<open>int32\<close>; the trie only compares runes and converts them
  to strings, so a rune is an \<^typ>\<open>int\<close>, and \<open>byte c\<close> is the value of
  a byte as the decoder widens it (\<open>rune(s[0])\<close>).
\<close>

type_synonym rune = int

definition RuneError :: rune where
  "RuneError = 0xFFFD"

definition byte :: "char \<Rightarrow> int" where
  "byte c = of_char c"

definition cont :: "char \<Rightarrow> bool" where
  "cont c = (0x80 \<le> byte c \<and> byte c \<le> 0xBF)"

text \<open>
  \<open>for i, r := range key\<close> decodes one UTF-8 sequence per iteration. The Go
  runtime does it with \<open>decoderune\<close>: a well-formed sequence of two, three or
  four bytes gives its code point and its width; a byte below \<open>0x80\<close> gives
  itself and width 1; anything else (a stray continuation byte, a truncated or
  overlong sequence, a surrogate, a value above \<open>0x10FFFF\<close>) gives
  \<open>0xFFFD\<close> and width 1. \<open>b & mask\<close> is written \<open>mod\<close> and the
  shifts are written as products.
\<close>

fun decoderune :: "string \<Rightarrow> rune \<times> nat" where
  "decoderune [] = (RuneError, 1)"
| "decoderune (c0 # cs) =
    (if byte c0 < 0x80 then (byte c0, 1)
     else if 0xC0 \<le> byte c0 \<and> byte c0 < 0xE0 then
       (case cs of
          c1 # _ \<Rightarrow>
            (let r = byte c0 mod 32 * 64 + byte c1 mod 64
             in if cont c1 \<and> 0x7F < r then (r, 2) else (RuneError, 1))
        | _ \<Rightarrow> (RuneError, 1))
     else if 0xE0 \<le> byte c0 \<and> byte c0 < 0xF0 then
       (case cs of
          c1 # c2 # _ \<Rightarrow>
            (let r = byte c0 mod 16 * 4096 + byte c1 mod 64 * 64 + byte c2 mod 64
             in if cont c1 \<and> cont c2 \<and> 0x7FF < r \<and> \<not> (0xD800 \<le> r \<and> r \<le> 0xDFFF)
                then (r, 3) else (RuneError, 1))
        | _ \<Rightarrow> (RuneError, 1))
     else if 0xF0 \<le> byte c0 \<and> byte c0 < 0xF8 then
       (case cs of
          c1 # c2 # c3 # _ \<Rightarrow>
            (let r = byte c0 mod 8 * 262144 + byte c1 mod 64 * 4096
                     + byte c2 mod 64 * 64 + byte c3 mod 64
             in if cont c1 \<and> cont c2 \<and> cont c3 \<and> 0xFFFF < r \<and> r \<le> 0x10FFFF
                then (r, 4) else (RuneError, 1))
        | _ \<Rightarrow> (RuneError, 1))
     else (RuneError, 1))"

lemma decoderune_width: "1 \<le> snd (decoderune s) \<and> snd (decoderune s) \<le> 4"
  by (cases s) (auto simp: Let_def split: list.splits)

text \<open>
  The runes of a string, each with the number of bytes it took: the next rune
  is decoded from where this one ended.
\<close>

function decode :: "string \<Rightarrow> (rune \<times> nat) list" where
  "decode [] = []"
| "decode (c # cs) =
    decoderune (c # cs) # decode (drop (snd (decoderune (c # cs))) (c # cs))"
  by pat_completeness auto
termination
proof (relation "measure length")
  show "wf (measure (length :: string \<Rightarrow> nat))" by simp
next
  fix c :: char and cs :: string
  have "1 \<le> snd (decoderune (c # cs))" using decoderune_width by blast
  then show "(drop (snd (decoderune (c # cs))) (c # cs), c # cs) \<in> measure length"
    by simp
qed

text \<open>
  The \<open>(i, r)\<close> pairs that \<open>for i, r := range key\<close> yields: \<open>i\<close> is
  the byte index at which the rune \<open>r\<close> starts, so it advances by the width
  of each rune. \<open>for _, r := range key\<close> sees the runes alone.
\<close>

fun index_from :: "nat \<Rightarrow> (rune \<times> nat) list \<Rightarrow> (nat \<times> rune) list" where
  "index_from i [] = []"
| "index_from i ((r, w) # rws) = (i, r) # index_from (i + w) rws"

definition range_string :: "string \<Rightarrow> (nat \<times> rune) list" where
  "range_string key = index_from 0 (decode key)"

definition runes :: "string \<Rightarrow> rune list" where
  "runes key = map fst (decode key)"

text \<open>
  \<open>string(r)\<close> for a rune \<open>r\<close> is its UTF-8 encoding (\<open>encoderune\<close> of the
  runtime); a surrogate, a negative rune or one above \<open>0x10FFFF\<close> is encoded
  as \<open>0xFFFD\<close>.
\<close>

definition chr :: "int \<Rightarrow> char" where
  "chr n = char_of n"

definition string_of_rune :: "rune \<Rightarrow> string" where
  "string_of_rune r =
    (if 0 \<le> r \<and> r \<le> 0x7F then [chr r]
     else if 0 \<le> r \<and> r \<le> 0x7FF then [chr (0xC0 + r div 64), chr (0x80 + r mod 64)]
     else if r < 0 \<or> 0x10FFFF < r \<or> (0xD800 \<le> r \<and> r \<le> 0xDFFF)
       then [chr 0xEF, chr 0xBF, chr 0xBD]
     else if r \<le> 0xFFFF
       then [chr (0xE0 + r div 4096), chr (0x80 + r div 64 mod 64), chr (0x80 + r mod 64)]
     else [chr (0xF0 + r div 262144), chr (0x80 + r div 4096 mod 64),
           chr (0x80 + r div 64 mod 64), chr (0x80 + r mod 64)])"

section \<open>The trie\<close>

text \<open>
  \<open>type RuneTrie struct { Value interface{}; Children map[rune]*RuneTrie }\<close>.
  \<open>Value\<close> is \<open>None\<close> for Go's \<open>nil\<close>. The \<open>Children\<close> map is an
  association list, read with \<^const>\<open>map_of\<close>, written with
  \<^const>\<open>AList.update\<close> and \<^const>\<open>AList.delete\<close>; a \<open>nil\<close> map and an
  empty map are both \<open>[]\<close> (the code reads, measures and deletes from both
  alike, and \<open>Put\<close> makes a map before it writes to a \<open>nil\<close> one). Every
  node is owned by one parent, so the pointer structure is a tree and a node is
  the value of its subtree.
\<close>

datatype 'v RuneTrie = RuneTrie (Value: "'v option") (Children: "(rune \<times> 'v RuneTrie) list")

definition NewRuneTrie :: "'v RuneTrie" where
  "NewRuneTrie = RuneTrie None []"

definition isLeaf :: "'v RuneTrie \<Rightarrow> bool" where
  "isLeaf trie = (length (Children trie) = 0)"

subsection \<open>Get\<close>

fun Get_loop :: "'v RuneTrie \<Rightarrow> rune list \<Rightarrow> 'v option" where
  "Get_loop node [] = Value node"
| "Get_loop node (r # rs) =
    (case map_of (Children node) r of
       None \<Rightarrow> None
     | Some child \<Rightarrow> Get_loop child rs)"

definition Get :: "'v RuneTrie \<Rightarrow> string \<Rightarrow> 'v option" where
  "Get trie key = Get_loop trie (runes key)"

subsection \<open>Put\<close>

text \<open>
  \<open>Put\<close> mutates the nodes in place; the model returns the result
  \<open>isNewVal\<close> together with the trie after the call. A missing child is
  allocated (\<open>new(RuneTrie)\<close>), stored under \<open>r\<close> and descended into.
\<close>

fun Put_loop :: "'v RuneTrie \<Rightarrow> rune list \<Rightarrow> 'v option \<Rightarrow> bool \<times> 'v RuneTrie" where
  "Put_loop node [] val = (Value node = None, RuneTrie val (Children node))"
| "Put_loop node (r # rs) val =
    (let child = (case map_of (Children node) r of
                    None \<Rightarrow> NewRuneTrie
                  | Some c \<Rightarrow> c);
         res = Put_loop child rs val
     in (fst res, RuneTrie (Value node) (AList.update r (snd res) (Children node))))"

definition Put :: "'v RuneTrie \<Rightarrow> string \<Rightarrow> 'v option \<Rightarrow> bool \<times> 'v RuneTrie" where
  "Put trie key val = Put_loop trie (runes key) val"

subsection \<open>Delete\<close>

text \<open>
  \<open>type nodeRune struct { node *RuneTrie; r rune }\<close>: \<open>nr_node\<close> is
  \<open>None\<close> for a \<open>nil\<close> pointer, and \<open>make([]nodeRune, n)\<close> is \<open>n\<close>
  copies of the zero value.
\<close>

datatype 'v nodeRune = nodeRune (nr_node: "'v RuneTrie option") (nr_r: rune)

definition make_path :: "nat \<Rightarrow> 'v nodeRune list" where
  "make_path n = replicate n (nodeRune None 0)"

datatype panic = NilPointerDereference

text \<open>
  The first loop of \<open>Delete\<close>: \<open>path[i]\<close> records the node left and the
  rune taken, at the byte index \<open>i\<close> of the rune; a missing child ends the
  call (\<open>None\<close>, the \<open>return false\<close>).
\<close>

fun Delete_descend ::
  "'v RuneTrie \<Rightarrow> 'v nodeRune list \<Rightarrow> (nat \<times> rune) list
   \<Rightarrow> ('v nodeRune list \<times> 'v RuneTrie) option" where
  "Delete_descend node path [] = Some (path, node)"
| "Delete_descend node path ((i, r) # irs) =
    (case map_of (Children node) r of
       None \<Rightarrow> None
     | Some child \<Rightarrow> Delete_descend child (path[i := nodeRune (Some node) r]) irs)"

text \<open>
  The second loop, \<open>for i := len(key) - 1; i >= 0; i--\<close>, with the counter
  one above \<open>i\<close>. The nodes of \<open>path\<close> are pointers in the source; here
  they are the nodes as the descent left them, and they differ from the nodes
  the loop reads only in the child under \<open>path[i].r\<close>, which the loop
  deletes first. The loop returns how it ended, the index it stopped at, and
  the last node it changed and left in the trie (\<open>cur\<close>). Reading a field
  of \<open>path[i].node\<close> when that pointer is \<open>nil\<close> is Go's run-time panic.
\<close>

fun Delete_prune ::
  "'v nodeRune list \<Rightarrow> nat \<Rightarrow> 'v RuneTrie \<Rightarrow> panic option \<times> nat \<times> 'v RuneTrie" where
  "Delete_prune path 0 cur = (None, 0, cur)"
| "Delete_prune path (Suc i) cur =
    (case nr_node (path ! i) of
       None \<Rightarrow> (Some NilPointerDereference, Suc i, cur)
     | Some parent \<Rightarrow>
         (let parent1 = RuneTrie (Value parent) (AList.delete (nr_r (path ! i)) (Children parent))
          in if \<not> isLeaf parent1 then (None, i, parent1)
             else (let parent2 = RuneTrie (Value parent1) []
                   in if Value parent2 \<noteq> None then (None, i, parent2)
                      else Delete_prune path i parent2)))"

text \<open>
  The ancestors of a changed node point to it, so they see the change. In the
  tree model the changed node \<open>cur\<close>, which sits below the recorded entries
  of index less than \<open>i\<close>, is put back under each of them in turn, up to the
  root; entries that were never written hold no node and are passed over.
\<close>

fun relink :: "'v nodeRune list \<Rightarrow> nat \<Rightarrow> 'v RuneTrie \<Rightarrow> 'v RuneTrie" where
  "relink path 0 cur = cur"
| "relink path (Suc i) cur =
    (case nr_node (path ! i) of
       None \<Rightarrow> relink path i cur
     | Some parent \<Rightarrow>
         relink path i
           (RuneTrie (Value parent) (AList.update (nr_r (path ! i)) cur (Children parent))))"

text \<open>
  \<open>Delete\<close> returns \<open>Inr\<close> of its boolean, or \<open>Inl\<close> of the panic
  that ended it, and in both cases the trie as the call left it.
\<close>

definition Delete :: "'v RuneTrie \<Rightarrow> string \<Rightarrow> (panic + bool) \<times> 'v RuneTrie" where
  "Delete trie key =
    (case Delete_descend trie (make_path (length key)) (range_string key) of
       None \<Rightarrow> (Inr False, trie)
     | Some (path, node) \<Rightarrow>
         (let node1 = RuneTrie None (Children node)
          in if isLeaf node1
             then (case Delete_prune path (length key) node1 of
                     (None, i, cur) \<Rightarrow> (Inr True, relink path i cur)
                   | (Some p, i, cur) \<Rightarrow> (Inl p, relink path i cur))
             else (Inr True, relink path (length key) node1)))"

subsection \<open>Walk and WalkPath\<close>

text \<open>
  \<open>type WalkFunc func(key string, value interface{}) error\<close>. The walker is
  a closure and may keep state of its own: it takes its state and returns the
  error (\<open>None\<close> for \<open>nil\<close>) with the state after the call. It does not
  touch the trie it is walking.
\<close>

type_synonym ('v, 'e, 's) WalkFunc = "string \<Rightarrow> 'v \<Rightarrow> 's \<Rightarrow> 'e option \<times> 's"

text \<open>
  \<open>for r, child := range trie.Children\<close> visits the entries of the map in an
  order Go does not specify: the order of the association list stands for the
  order the runtime picks, and it is arbitrary.
\<close>

fun walk :: "'v RuneTrie \<Rightarrow> string \<Rightarrow> ('v, 'e, 's) WalkFunc \<Rightarrow> 's \<Rightarrow> 'e option \<times> 's"
  and walk_children ::
    "(rune \<times> 'v RuneTrie) list \<Rightarrow> string \<Rightarrow> ('v, 'e, 's) WalkFunc \<Rightarrow> 's \<Rightarrow> 'e option \<times> 's"
  where
  "walk (RuneTrie vo cs) key walker s =
    (case vo of
       None \<Rightarrow> walk_children cs key walker s
     | Some v \<Rightarrow>
         (case walker key v s of
            (Some err, s1) \<Rightarrow> (Some err, s1)
          | (None, s1) \<Rightarrow> walk_children cs key walker s1))"
| "walk_children [] key walker s = (None, s)"
| "walk_children ((r, child) # cs) key walker s =
    (case walk child (key @ string_of_rune r) walker s of
       (Some err, s1) \<Rightarrow> (Some err, s1)
     | (None, s1) \<Rightarrow> walk_children cs key walker s1)"

definition Walk :: "'v RuneTrie \<Rightarrow> ('v, 'e, 's) WalkFunc \<Rightarrow> 's \<Rightarrow> 'e option \<times> 's" where
  "Walk trie walker s = walk trie [] walker s"

fun WalkPath_loop ::
  "'v RuneTrie \<Rightarrow> string \<Rightarrow> (nat \<times> rune) list \<Rightarrow> ('v, 'e, 's) WalkFunc \<Rightarrow> 's
   \<Rightarrow> 'e option \<times> 's" where
  "WalkPath_loop trie key [] walker s = (None, s)"
| "WalkPath_loop trie key ((i, r) # irs) walker s =
    (case map_of (Children trie) r of
       None \<Rightarrow> (None, s)
     | Some child \<Rightarrow>
         (case Value child of
            None \<Rightarrow> WalkPath_loop child key irs walker s
          | Some v \<Rightarrow>
              (case walker (take (i + 1) key) v s of
                 (Some err, s1) \<Rightarrow> (Some err, s1)
               | (None, s1) \<Rightarrow> WalkPath_loop child key irs walker s1)))"

definition WalkPath ::
  "'v RuneTrie \<Rightarrow> string \<Rightarrow> ('v, 'e, 's) WalkFunc \<Rightarrow> 's \<Rightarrow> 'e option \<times> 's" where
  "WalkPath trie key walker s =
    (case Value trie of
       None \<Rightarrow> WalkPath_loop trie key (range_string key) walker s
     | Some v \<Rightarrow>
         (case walker [] v s of
            (Some err, s1) \<Rightarrow> (Some err, s1)
          | (None, s1) \<Rightarrow> WalkPath_loop trie key (range_string key) walker s1))"

section \<open>Notions of the specification\<close>

text \<open>
  I1: no node other than the root is both childless and without a value. The
  root is exempt, so the condition is put on every child, all the way down.
\<close>

fun I1 :: "'v RuneTrie \<Rightarrow> bool" where
  "I1 (RuneTrie vo cs) = (\<forall>(r, c) \<in> set cs. (isLeaf c \<longrightarrow> Value c \<noteq> None) \<and> I1 c)"

text \<open>
  The node reached from \<open>node\<close> along a sequence of runes, if every edge
  is there.
\<close>

fun node_at :: "'v RuneTrie \<Rightarrow> rune list \<Rightarrow> 'v RuneTrie option" where
  "node_at node [] = Some node"
| "node_at node (r # rs) =
    (case map_of (Children node) r of
       None \<Rightarrow> None
     | Some child \<Rightarrow> node_at child rs)"

text \<open>
  A Go map holds one entry for a key. The association list of a node is
  well formed when no rune occurs twice in it, and so on below.
\<close>

fun well_formed :: "'v RuneTrie \<Rightarrow> bool" where
  "well_formed (RuneTrie vo cs) = (distinct (map fst cs) \<and> (\<forall>(r, c) \<in> set cs. well_formed c))"

text \<open>
  The key that \<open>walk\<close> has built up at the node reached along the runes
  \<open>rs\<close>: \<open>key + string(r)\<close> for each rune in turn.
\<close>

definition string_of_runes :: "rune list \<Rightarrow> string" where
  "string_of_runes rs = concat (map string_of_rune rs)"

text \<open>
  A walker given by its answers: \<open>f calls key v\<close> is what it returns when it
  is called with \<open>key\<close> and \<open>v\<close> after the calls \<open>calls\<close>. Its state
  is the list of the calls it has received, so the state after a walk is the
  list of the calls the walk made, in order.
\<close>

definition logged ::
  "((string \<times> 'v) list \<Rightarrow> string \<Rightarrow> 'v \<Rightarrow> 'e option) \<Rightarrow> ('v, 'e, (string \<times> 'v) list) WalkFunc" where
  "logged f key v calls = (f calls key v, calls @ [(key, v)])"

text \<open>
  A client of the trie makes calls one after the other. \<open>apply_ops\<close> is the
  trie left by a sequence of \<open>Put\<close> and \<open>Delete\<close> calls, whatever each
  call returned; for a \<open>Delete\<close> that panicked it is the trie as the panic
  left it.
\<close>

datatype 'v operation = PutOp string "'v option" | DeleteOp string

fun apply_op :: "'v RuneTrie \<Rightarrow> 'v operation \<Rightarrow> 'v RuneTrie" where
  "apply_op trie (PutOp key val) = snd (Put trie key val)"
| "apply_op trie (DeleteOp key) = snd (Delete trie key)"

fun apply_ops :: "'v RuneTrie \<Rightarrow> 'v operation list \<Rightarrow> 'v RuneTrie" where
  "apply_ops trie [] = trie"
| "apply_ops trie (op # ops) = apply_ops (apply_op trie op) ops"

text \<open>
  The trie tells keys apart by their runes. A call is on another key than
  \<open>k\<close> when its key has other runes; a call keeps the key \<open>k\<close> when it
  is on another key or is a \<open>Put\<close> of a value that is not \<open>nil\<close>: it
  neither deletes \<open>k\<close> nor stores \<open>nil\<close> at it.
\<close>

fun other_key :: "string \<Rightarrow> 'v operation \<Rightarrow> bool" where
  "other_key k (PutOp key val) = (runes key \<noteq> runes k)"
| "other_key k (DeleteOp key) = (runes key \<noteq> runes k)"

fun keeps :: "string \<Rightarrow> 'v operation \<Rightarrow> bool" where
  "keeps k (PutOp key val) = (runes key \<noteq> runes k \<or> val \<noteq> None)"
| "keeps k (DeleteOp key) = (runes key \<noteq> runes k)"

section \<open>Get and Put\<close>

lemma Get_loop_New: "Get_loop NewRuneTrie rs = None"
  by (cases rs) (simp_all add: NewRuneTrie_def)

lemma Get_Put_loop_same: "Get_loop (snd (Put_loop node rs val)) rs = val"
  by (induction rs arbitrary: node) (simp_all add: Let_def update_conv')

lemma Get_Put_loop_other:
  "rs' \<noteq> rs \<Longrightarrow> Get_loop (snd (Put_loop node rs val)) rs' = Get_loop node rs'"
proof (induction rs arbitrary: node rs')
  case Nil
  then show ?case by (cases rs') simp_all
next
  case (Cons r rs)
  show ?case
  proof (cases rs')
    case Nil
    then show ?thesis by (simp add: Let_def)
  next
    case (Cons r' rs'')
    show ?thesis
    proof (cases "r' = r")
      case False
      with Cons show ?thesis by (simp add: Let_def update_conv')
    next
      case True
      with Cons Cons.prems have ne: "rs'' \<noteq> rs" by simp
      show ?thesis
        using Cons True Cons.IH [OF ne]
        by (simp add: Let_def update_conv' Get_loop_New split: option.split)
    qed
  qed
qed

lemma Put_loop_isNewVal: "fst (Put_loop node rs val) = (Get_loop node rs = None)"
proof (induction rs arbitrary: node)
  case Nil
  show ?case by simp
next
  case (Cons r rs)
  show ?case
    by (simp add: Let_def Cons.IH Get_loop_New split: option.split)
qed

text \<open>
  C5: for every trie, every key and every value (\<open>nil\<close> included),
  \<open>Get(k)\<close> right after \<open>Put(k, v)\<close> returns \<open>v\<close>. The empty key is the
  case where both address the root.
\<close>

theorem Get_after_Put: "Get (snd (Put trie key val)) key = val"
  by (simp add: Get_def Put_def Get_Put_loop_same)

text \<open>
  C10, as the code has it: \<open>Put(k, v)\<close> leaves \<open>Get(k')\<close> as it was for
  every key \<open>k'\<close> from which \<open>range\<close> yields other runes than from
  \<open>k\<close>. The encodings of two different sequences of code points are such
  keys (\<open>runes_differ\<close> below).
\<close>

theorem Put_frame:
  "runes k' \<noteq> runes k \<Longrightarrow> Get (snd (Put trie k val)) k' = Get trie k'"
  by (simp add: Get_def Put_def Get_Put_loop_other)

theorem Put_frame_witness:
  "runes ''ab'' \<noteq> runes ''a'' \<and>
   Get (snd (Put (snd (Put NewRuneTrie ''ab'' (Some (2::nat)))) ''a'' (Some 1))) ''ab'' = Some 2"
proof -
  have ne: "runes ''ab'' \<noteq> runes ''a''"
    by code_simp
  have base: "Get (snd (Put NewRuneTrie ''ab'' (Some (2::nat)))) ''ab'' = Some 2"
    by code_simp
  have step: "Get (snd (Put (snd (Put NewRuneTrie ''ab'' (Some (2::nat)))) ''a'' (Some 1))) ''ab''
              = Get (snd (Put NewRuneTrie ''ab'' (Some (2::nat)))) ''ab''"
    by (rule Put_frame [OF ne])
  show ?thesis unfolding step base using ne by blast
qed

text \<open>
  C10 as it is stated fails for two keys that differ in bytes that are not
  UTF-8: \<open>range\<close> reads each such byte as \<open>0xFFFD\<close>, so the keys
  of the one byte \<open>0xFF\<close> and of the one byte \<open>0xFE\<close> address the same
  node.
\<close>

theorem Put_frame_counterexample:
  "[CHR 0xFE] \<noteq> [CHR 0xFF] \<and>
   Get (NewRuneTrie :: nat RuneTrie) [CHR 0xFE] = None \<and>
   Get (snd (Put (NewRuneTrie :: nat RuneTrie) [CHR 0xFF] (Some 1))) [CHR 0xFE] = Some 1"
  by code_simp

section \<open>Delete, by recursion on the key\<close>

text \<open>
  What \<open>Delete\<close> does below a node, told by recursion on the runes of the
  key and their widths: the key's node is missing (\<open>NotFound\<close>); the call
  stopped, by a \<open>break\<close>, at a node with children, or by a panic, and the
  node has become the one given (\<open>Stopped\<close>); or the node has become
  childless and without a value and the second loop is to remove it from its
  parent (\<open>Pruning\<close>). The second loop steps through every byte index, so
  under a rune of more than one byte it first reads an entry of \<open>path\<close>
  that the descent never wrote. \<open>Delete_by_recursion\<close> proves that the
  loops of \<open>Delete\<close> compute exactly this.
\<close>

datatype 'v pruned = NotFound | Stopped "panic option" "'v RuneTrie" | Pruning "'v RuneTrie"

fun Delete_rec :: "'v RuneTrie \<Rightarrow> (rune \<times> nat) list \<Rightarrow> 'v pruned" where
  "Delete_rec n [] =
    (if isLeaf (RuneTrie None (Children n)) then Pruning (RuneTrie None (Children n))
     else Stopped None (RuneTrie None (Children n)))"
| "Delete_rec n ((r, w) # rws) =
    (case map_of (Children n) r of
       None \<Rightarrow> NotFound
     | Some child \<Rightarrow>
         (case Delete_rec child rws of
            NotFound \<Rightarrow> NotFound
          | Stopped p c \<Rightarrow> Stopped p (RuneTrie (Value n) (AList.update r c (Children n)))
          | Pruning c \<Rightarrow>
              if w \<noteq> 1
              then Stopped (Some NilPointerDereference)
                     (RuneTrie (Value n) (AList.update r c (Children n)))
              else if \<not> isLeaf (RuneTrie (Value n) (AList.delete r (Children n)))
              then Stopped None (RuneTrie (Value n) (AList.delete r (Children n)))
              else if Value n \<noteq> None then Stopped None (RuneTrie (Value n) [])
              else Pruning (RuneTrie (Value n) [])))"

definition outcome :: "'v RuneTrie \<Rightarrow> 'v pruned \<Rightarrow> (panic + bool) \<times> 'v RuneTrie" where
  "outcome trie d =
    (case d of
       NotFound \<Rightarrow> (Inr False, trie)
     | Stopped None n \<Rightarrow> (Inr True, n)
     | Stopped (Some p) n \<Rightarrow> (Inl p, n)
     | Pruning n \<Rightarrow> (Inr True, n))"

text \<open>
  The part of \<open>Delete\<close> after the descent, and the second loop resumed at
  index \<open>i\<close>.
\<close>

definition finish :: "'v nodeRune list \<Rightarrow> nat \<Rightarrow> 'v RuneTrie \<Rightarrow> panic option \<times> 'v RuneTrie" where
  "finish path L node =
    (if isLeaf (RuneTrie None (Children node))
     then (case Delete_prune path L (RuneTrie None (Children node)) of
             (p, i, cur) \<Rightarrow> (p, relink path i cur))
     else (None, relink path L (RuneTrie None (Children node))))"

definition resume :: "'v nodeRune list \<Rightarrow> nat \<Rightarrow> 'v RuneTrie \<Rightarrow> panic option \<times> 'v RuneTrie" where
  "resume path i n = (case Delete_prune path i n of (p, j, cur) \<Rightarrow> (p, relink path j cur))"

lemma relink_gap:
  "(\<And>k. a \<le> k \<Longrightarrow> k < a + d \<Longrightarrow> nr_node (P ! k) = None) \<Longrightarrow> relink P (a + d) c = relink P a c"
  by (induction d) simp_all

lemma decoderune_le: "s \<noteq> [] \<Longrightarrow> snd (decoderune s) \<le> length s"
  by (cases s) (auto simp: Let_def split: list.splits)

lemma decode_widths: "(r, w) \<in> set (decode s) \<Longrightarrow> 1 \<le> w"
proof (induction s rule: decode.induct)
  case 1
  then show ?case by simp
next
  case (2 c cs)
  then show ?case using decoderune_width [of "c # cs"] by (auto simp: prod_eq_iff)
qed

lemma decode_length: "sum_list (map snd (decode s)) = length s"
proof (induction s rule: decode.induct)
  case 1
  show ?case by simp
next
  case (2 c cs)
  have "snd (decoderune (c # cs)) \<le> length (c # cs)" by (rule decoderune_le) simp
  with 2 show ?case by simp
qed

text \<open>
  Every index that \<open>range\<close> yields is below \<open>len(key)\<close>: the writes
  \<open>path[i] = ...\<close> of \<open>Delete\<close> and the slices \<open>key[0:i+1]\<close> of
  \<open>WalkPath\<close> are in range.
\<close>

lemma index_from_bounds:
  "\<forall>x \<in> set rws. 1 \<le> snd x \<Longrightarrow> (j, r) \<in> set (index_from i rws)
   \<Longrightarrow> i \<le> j \<and> j < i + sum_list (map snd rws)"
proof (induction rws arbitrary: i)
  case Nil
  then show ?case by simp
next
  case (Cons rw rws)
  obtain r0 w where rw: "rw = (r0, w)" by (cases rw)
  from Cons.prems(1) have w: "1 \<le> w" and rest: "\<forall>x \<in> set rws. 1 \<le> snd x"
    by (simp_all add: rw)
  from Cons.prems(2) have "(j, r) = (i, r0) \<or> (j, r) \<in> set (index_from (i + w) rws)"
    by (simp add: rw)
  then show ?case
  proof
    assume "(j, r) = (i, r0)"
    with w show ?thesis by (simp add: rw)
  next
    assume "(j, r) \<in> set (index_from (i + w) rws)"
    from Cons.IH [OF rest this] show ?thesis by (simp add: rw)
  qed
qed

lemma range_string_index: "(i, r) \<in> set (range_string key) \<Longrightarrow> i < length key"
proof -
  assume a: "(i, r) \<in> set (range_string key)"
  have "\<forall>x \<in> set (decode key). 1 \<le> snd x" using decode_widths by fastforce
  from index_from_bounds [OF this, of i r 0] a show ?thesis
    by (simp add: range_string_def decode_length)
qed

lemma Delete_descend_rec:
  assumes "\<forall>x \<in> set rws. 1 \<le> snd x"
    and "i + sum_list (map snd rws) = L"
    and "length path = L"
    and "\<forall>k. i \<le> k \<and> k < L \<longrightarrow> nr_node (path ! k) = None"
  shows "case Delete_rec n rws of
           NotFound \<Rightarrow> Delete_descend n path (index_from i rws) = None
         | Stopped p n' \<Rightarrow>
             (\<exists>P tgt. Delete_descend n path (index_from i rws) = Some (P, tgt)
                \<and> (\<forall>k<i. P ! k = path ! k) \<and> finish P L tgt = (p, relink P i n'))
         | Pruning n' \<Rightarrow>
             (\<exists>P tgt. Delete_descend n path (index_from i rws) = Some (P, tgt)
                \<and> (\<forall>k<i. P ! k = path ! k) \<and> finish P L tgt = resume P i n')"
  using assms
proof (induction rws arbitrary: n path i)
  case Nil
  then show ?case by (simp add: finish_def resume_def)
next
  case (Cons rw rws)
  obtain r w where rw: "rw = (r, w)" by (cases rw)
  have w1: "1 \<le> w" using Cons.prems(1) rw by simp
  have iL: "i + w \<le> L" using Cons.prems(2) rw by simp
  show ?case
  proof (cases "map_of (Children n) r")
    case None
    then show ?thesis by (simp add: rw)
  next
    case (Some child)
    let ?path = "path[i := nodeRune (Some n) r]"
    have desc: "Delete_descend n path (index_from i (rw # rws))
                = Delete_descend child ?path (index_from (i + w) rws)"
      by (simp add: rw Some)
    have p1: "\<forall>x \<in> set rws. 1 \<le> snd x" using Cons.prems(1) by simp
    have p2: "(i + w) + sum_list (map snd rws) = L" using Cons.prems(2) rw by simp
    have p3: "length ?path = L" using Cons.prems(3) by simp
    have p4: "\<forall>k. i + w \<le> k \<and> k < L \<longrightarrow> nr_node (?path ! k) = None"
      using Cons.prems(4) w1 by simp
    note IH = Cons.IH [of "i + w" ?path child, OF p1 p2 p3 p4]
    have at_i: "?path ! i = nodeRune (Some n) r" using iL w1 Cons.prems(3) by simp
    have gap: "\<And>k. Suc i \<le> k \<Longrightarrow> k < i + w \<Longrightarrow> nr_node (?path ! k) = None"
      using Cons.prems(4) iL by simp
    show ?thesis
    proof (cases "Delete_rec child rws")
      case NotFound
      with IH show ?thesis by (simp add: rw Some)
    next
      case (Stopped p c)
      with IH obtain P tgt where
        d: "Delete_descend child ?path (index_from (i + w) rws) = Some (P, tgt)"
        and same: "\<forall>k<i + w. P ! k = ?path ! k"
        and fin: "finish P L tgt = (p, relink P (i + w) c)"
        by auto
      have Pi: "P ! i = nodeRune (Some n) r" using same at_i w1 by simp
      have "relink P (Suc i + (w - 1)) c = relink P (Suc i) c"
        by (rule relink_gap) (use same gap in simp)
      then have "relink P (i + w) c = relink P (Suc i) c" using w1 by simp
      then have rl: "relink P (i + w) c
                     = relink P i (RuneTrie (Value n) (AList.update r c (Children n)))"
        by (simp add: Pi)
      have below: "\<forall>k<i. P ! k = path ! k" using same by simp
      show ?thesis using d below fin rl by (simp add: rw Some Stopped)
    next
      case (Pruning c)
      with IH obtain P tgt where
        d: "Delete_descend child ?path (index_from (i + w) rws) = Some (P, tgt)"
        and same: "\<forall>k<i + w. P ! k = ?path ! k"
        and fin: "finish P L tgt = resume P (i + w) c"
        by auto
      have Pi: "P ! i = nodeRune (Some n) r" using same at_i w1 by simp
      have below: "\<forall>k<i. P ! k = path ! k" using same by simp
      show ?thesis
      proof (cases "w = 1")
        case True
        have "resume P (i + w) c =
          (if \<not> isLeaf (RuneTrie (Value n) (AList.delete r (Children n)))
           then (None, relink P i (RuneTrie (Value n) (AList.delete r (Children n))))
           else if Value n \<noteq> None then (None, relink P i (RuneTrie (Value n) []))
           else resume P i (RuneTrie (Value n) []))"
          using True Pi by (simp add: resume_def Let_def)
        then show ?thesis using d below fin True by (simp add: rw Some Pruning)
      next
        case False
        then obtain m where m: "i + w = Suc m" "Suc i \<le> m" "m < i + w" using w1
          by (cases w) auto
        have "nr_node (P ! m) = None" using same gap m by simp
        then have res: "resume P (i + w) c = (Some NilPointerDereference, relink P (i + w) c)"
          by (simp add: resume_def m(1))
        have "relink P (Suc i + (w - 1)) c = relink P (Suc i) c"
          by (rule relink_gap) (use same gap in simp)
        then have "relink P (i + w) c = relink P (Suc i) c" using w1 by simp
        then have rl: "relink P (i + w) c
                       = relink P i (RuneTrie (Value n) (AList.update r c (Children n)))"
          by (simp add: Pi)
        show ?thesis using d below fin res rl False by (simp add: rw Some Pruning)
      qed
    qed
  qed
qed

lemma Delete_finish:
  "Delete trie key =
    (case Delete_descend trie (make_path (length key)) (range_string key) of
       None \<Rightarrow> (Inr False, trie)
     | Some (path, node) \<Rightarrow>
         (case finish path (length key) node of
            (None, t) \<Rightarrow> (Inr True, t)
          | (Some p, t) \<Rightarrow> (Inl p, t)))"
  by (auto simp: Delete_def finish_def Let_def split: option.splits prod.splits)

lemma Delete_by_recursion: "Delete trie key = outcome trie (Delete_rec trie (decode key))"
proof -
  have a: "\<forall>x \<in> set (decode key). 1 \<le> snd x" using decode_widths by fastforce
  have b: "0 + sum_list (map snd (decode key)) = length key" by (simp add: decode_length)
  have c: "length (make_path (length key) :: 'a nodeRune list) = length key"
    by (simp add: make_path_def)
  have d: "\<forall>k. 0 \<le> k \<and> k < length key
           \<longrightarrow> nr_node ((make_path (length key) :: 'a nodeRune list) ! k) = None"
    by (simp add: make_path_def)
  note main = Delete_descend_rec [of "decode key" 0 "length key" "make_path (length key)" trie,
      OF a b c d]
  show ?thesis
  proof (cases "Delete_rec trie (decode key)")
    case NotFound
    with main show ?thesis by (simp add: Delete_finish outcome_def range_string_def)
  next
    case (Stopped p n)
    with main show ?thesis
      by (auto simp: Delete_finish outcome_def range_string_def split: option.splits)
  next
    case (Pruning n)
    with main show ?thesis
      by (auto simp: Delete_finish outcome_def range_string_def resume_def split: option.splits)
  qed
qed

section \<open>The invariant I1\<close>

lemma set_update_subset: "set (AList.update k v al) \<subseteq> insert (k, v) (set al)"
  by (induction al) auto

lemma set_delete_subset: "set (AList.delete k al) \<subseteq> set al"
  by (auto simp: AList.delete_eq)

lemma I1_Children: "I1 n = (\<forall>(r, c) \<in> set (Children n). (isLeaf c \<longrightarrow> Value c \<noteq> None) \<and> I1 c)"
  by (cases n) simp

lemma I1_update:
  assumes "I1 n" and "I1 c" and "isLeaf c \<longrightarrow> Value c \<noteq> None"
  shows "I1 (RuneTrie vo (AList.update r c (Children n)))"
  using assms set_update_subset [of r c "Children n"] by (auto simp: I1_Children [of n])

lemma I1_delete:
  assumes "I1 n"
  shows "I1 (RuneTrie vo (AList.delete r (Children n)))"
  using assms set_delete_subset [of r "Children n"] by (auto simp: I1_Children [of n])

lemma I1_child:
  assumes "I1 n" and "map_of (Children n) r = Some c"
  shows "I1 c \<and> (isLeaf c \<longrightarrow> Value c \<noteq> None)"
  using assms map_of_SomeD [of "Children n" r c] by (auto simp: I1_Children [of n])

lemma I1_New: "I1 NewRuneTrie"
  by (simp add: NewRuneTrie_def)

lemma I1_reachable:
  "I1 trie \<Longrightarrow> node_at trie rs = Some n \<Longrightarrow> rs \<noteq> [] \<Longrightarrow> isLeaf n \<Longrightarrow> Value n \<noteq> None"
proof (induction rs arbitrary: trie)
  case Nil
  then show ?case by simp
next
  case (Cons r rs)
  from Cons.prems(2) obtain c where c: "map_of (Children trie) r = Some c" "node_at c rs = Some n"
    by (auto split: option.splits)
  note ch = I1_child [OF Cons.prems(1) c(1)]
  show ?case
  proof (cases rs)
    case Nil
    with c ch Cons.prems(4) show ?thesis by simp
  next
    case (Cons a list)
    then have "rs \<noteq> []" by simp
    from Cons.IH [OF _ c(2) this Cons.prems(4)] ch show ?thesis by simp
  qed
qed

lemma Put_loop_I1:
  "I1 n \<Longrightarrow> val \<noteq> None \<Longrightarrow>
   I1 (snd (Put_loop n rs val)) \<and>
   (isLeaf (snd (Put_loop n rs val)) \<longrightarrow> Value (snd (Put_loop n rs val)) \<noteq> None)"
proof (induction rs arbitrary: n)
  case Nil
  then show ?case by (simp add: I1_Children [of n])
next
  case (Cons r rs)
  let ?child = "case map_of (Children n) r of None \<Rightarrow> NewRuneTrie | Some c \<Rightarrow> c"
  have "I1 ?child" using Cons.prems(1) I1_child [of n r] I1_New by (auto split: option.splits)
  from Cons.IH [OF this Cons.prems(2)]
  have "I1 (RuneTrie (Value n) (AList.update r (snd (Put_loop ?child rs val)) (Children n)))"
    by (intro I1_update Cons.prems(1)) simp_all
  then show ?case by (simp add: Let_def isLeaf_def del: I1.simps)
qed

lemma Delete_rec_Pruning: "Delete_rec n rws = Pruning n' \<Longrightarrow> n' = RuneTrie None []"
proof (cases rws)
  case Nil
  assume "Delete_rec n rws = Pruning n'"
  with Nil show ?thesis by (simp add: isLeaf_def split: if_splits)
next
  case (Cons rw rws')
  assume "Delete_rec n rws = Pruning n'"
  with Cons show ?thesis
    by (cases rw) (auto split: option.splits pruned.splits if_splits)
qed

lemma Delete_rec_I1:
  "I1 n \<Longrightarrow> Delete_rec n rws = Stopped None n' \<Longrightarrow> I1 n' \<and> (isLeaf n' \<longrightarrow> Value n' \<noteq> None)"
proof (induction rws arbitrary: n n')
  case Nil
  then show ?case by (auto simp: I1_Children [of n] split: if_splits)
next
  case (Cons rw rws)
  obtain r w where rw: "rw = (r, w)" by (cases rw)
  from Cons.prems(2) obtain child where ch: "map_of (Children n) r = Some child"
    by (auto simp: rw split: option.splits)
  note c1 = I1_child [OF Cons.prems(1) ch]
  show ?case
  proof (cases "Delete_rec child rws")
    case NotFound
    with Cons.prems(2) ch show ?thesis by (simp add: rw)
  next
    case (Stopped p c)
    with Cons.prems(2) ch have eq: "p = None" "n' = RuneTrie (Value n) (AList.update r c (Children n))"
      by (simp_all add: rw)
    from Cons.IH [of child c] c1 Stopped eq(1) have "I1 c \<and> (isLeaf c \<longrightarrow> Value c \<noteq> None)" by simp
    then have "I1 (RuneTrie (Value n) (AList.update r c (Children n)))"
      by (intro I1_update Cons.prems(1)) simp_all
    then show ?thesis by (simp add: eq(2) isLeaf_def del: I1.simps)
  next
    case (Pruning c)
    have "I1 (RuneTrie (Value n) (AList.delete r (Children n)))"
      by (rule I1_delete [OF Cons.prems(1)])
    moreover have "I1 (RuneTrie (Value n) [])" by simp
    ultimately show ?thesis using Pruning Cons.prems(2) ch
      by (auto simp: rw simp del: I1.simps split: if_splits)
  qed
qed

text \<open>
  C1, as the code has it: \<open>Get\<close>, \<open>Walk\<close> and \<open>WalkPath\<close> write
  nothing; from a trie where I1 holds, \<open>Put(k, v)\<close> with a value \<open>v\<close>
  that is not \<open>nil\<close> gives a trie where I1 holds, and so does
  \<open>Delete(k)\<close> whenever it returns.
\<close>

theorem I1_preserved:
  "I1 trie \<Longrightarrow>
   (val \<noteq> None \<longrightarrow> I1 (snd (Put trie key val))) \<and>
   (\<forall>b. fst (Delete trie key) = Inr b \<longrightarrow> I1 (snd (Delete trie key)))"
proof -
  assume inv: "I1 trie"
  have put: "val \<noteq> None \<longrightarrow> I1 (snd (Put trie key val))"
    using Put_loop_I1 [OF inv] by (simp add: Put_def)
  have del: "\<forall>b. fst (Delete trie key) = Inr b \<longrightarrow> I1 (snd (Delete trie key))"
  proof (cases "Delete_rec trie (decode key)")
    case NotFound
    then show ?thesis using inv by (simp add: Delete_by_recursion outcome_def)
  next
    case (Stopped p n)
    then show ?thesis using Delete_rec_I1 [OF inv, of "decode key" n]
      by (cases p) (simp_all add: Delete_by_recursion outcome_def)
  next
    case (Pruning n)
    then show ?thesis using Delete_rec_Pruning [of trie "decode key" n]
      by (simp add: Delete_by_recursion outcome_def)
  qed
  from put del show ?thesis by blast
qed

theorem I1_preserved_witness:
  "I1 (snd (Put NewRuneTrie ''ab'' (Some (1::nat)))) \<and>
   I1 (snd (Put (snd (Put NewRuneTrie ''ab'' (Some (1::nat)))) ''a'' (Some 2))) \<and>
   fst (Delete (snd (Put NewRuneTrie ''ab'' (Some (1::nat)))) ''ab'') = Inr True \<and>
   I1 (snd (Delete (snd (Put NewRuneTrie ''ab'' (Some (1::nat)))) ''ab''))"
proof -
  let ?T = "snd (Put NewRuneTrie ''ab'' (Some (1::nat)))"
  have inv: "I1 ?T" by code_simp
  have ret: "fst (Delete ?T ''ab'') = Inr True" by code_simp
  have ne: "Some (2::nat) \<noteq> None" by simp
  from I1_preserved [OF inv, of "Some 2" "''a''"] ne
  have p: "I1 (snd (Put ?T ''a'' (Some 2)))" by blast
  from I1_preserved [OF inv, of "Some 2" "''ab''"] ret
  have d: "I1 (snd (Delete ?T ''ab''))" by blast
  from inv p ret d show ?thesis by blast
qed

text \<open>
  C1 as it is stated fails for \<open>Put(k, nil)\<close>: the nodes it makes along
  \<open>k\<close> stay childless and without a value.
\<close>

theorem I1_Put_nil_counterexample:
  "I1 (NewRuneTrie :: nat RuneTrie) \<and> \<not> I1 (snd (Put (NewRuneTrie :: nat RuneTrie) ''a'' None))"
  by code_simp

section \<open>Delete and the other operations\<close>

lemma Delete_rec_NotFound: "Delete_rec n rws = NotFound \<longleftrightarrow> node_at n (map fst rws) = None"
proof (induction rws arbitrary: n)
  case Nil
  show ?case by simp
next
  case (Cons rw rws)
  obtain r w where rw: "rw = (r, w)" by (cases rw)
  show ?case
  proof (cases "map_of (Children n) r")
    case None
    then show ?thesis by (simp add: rw)
  next
    case (Some child)
    show ?thesis using Cons.IH [of child] Some
      by (cases "Delete_rec child rws") (simp_all add: rw)
  qed
qed

lemma Delete_rec_Get:
  "(Delete_rec n rws = NotFound \<longrightarrow> Get_loop n (map fst rws) = None) \<and>
   (\<forall>p n'. Delete_rec n rws = Stopped p n' \<longrightarrow> Get_loop n' (map fst rws) = None) \<and>
   (\<forall>n'. Delete_rec n rws = Pruning n' \<longrightarrow> Get_loop n' (map fst rws) = None)"
proof (induction rws arbitrary: n)
  case Nil
  show ?case by simp
next
  case (Cons rw rws)
  obtain r w where rw: "rw = (r, w)" by (cases rw)
  show ?case
  proof (cases "map_of (Children n) r")
    case None
    then show ?thesis by (simp add: rw)
  next
    case (Some child)
    show ?thesis using Cons.IH [of child] Some
      by (cases "Delete_rec child rws")
         (auto simp: rw update_conv' delete_conv' split: if_splits)
  qed
qed

text \<open>
  C6: \<open>Get(k)\<close> after \<open>Delete(k)\<close> returns \<open>nil\<close>, whatever the trie
  was and however the call ended.
\<close>

theorem Get_after_Delete: "Get (snd (Delete trie key)) key = None"
  using Delete_rec_Get [of trie "decode key"]
  by (cases "Delete_rec trie (decode key)")
     (auto simp: Delete_by_recursion outcome_def Get_def runes_def split: option.splits)

text \<open>
  \<open>Delete\<close> leaves every other key as it was: whether it returns false,
  returns true and prunes nodes, or panics half way through the pruning, the
  value under a key of other runes is the same after the call. The nodes it
  unlinks hold no value and lie on the path of the deleted key only.
\<close>

lemma Get_loop_empty: "Get_loop (RuneTrie None []) rs = None"
  using Get_loop_New [of rs] by (simp add: NewRuneTrie_def)

lemma Delete_rec_frame:
  "rs \<noteq> map fst rws \<Longrightarrow>
   (\<forall>p n'. Delete_rec n rws = Stopped p n' \<longrightarrow> Get_loop n' rs = Get_loop n rs) \<and>
   (\<forall>n'. Delete_rec n rws = Pruning n' \<longrightarrow> Get_loop n' rs = Get_loop n rs)"
proof (induction rws arbitrary: n rs)
  case Nil
  then obtain r rs' where "rs = r # rs'" by (cases rs) auto
  then show ?case by auto
next
  case (Cons rw rws)
  obtain r w where rw: "rw = (r, w)" by (cases rw)
  show ?case
  proof (cases "map_of (Children n) r")
    case None
    then show ?thesis by (simp add: rw)
  next
    case (Some child)
    show ?thesis
    proof (cases rs)
      case Nil
      then show ?thesis
        by (cases "Delete_rec child rws") (auto simp: rw Some)
    next
      case (Cons r' rs')
      show ?thesis
      proof (cases "r' = r")
        case False
        have del: "map_of (AList.delete r (Children n)) r' = map_of (Children n) r'"
          using False by simp
        have leaf: "isLeaf (RuneTrie (Value n) (AList.delete r (Children n)))
                    \<Longrightarrow> map_of (Children n) r' = None"
          using del by (simp add: isLeaf_def)
        show ?thesis using False del leaf
          by (cases "Delete_rec child rws")
             (auto simp: rw Some Cons update_conv' simp del: map_of_delete)
      next
        case True
        with Cons Cons.prems rw have ne: "rs' \<noteq> map fst rws" by simp
        note IH = Cons.IH [OF ne, of child]
        show ?thesis
        proof (cases "Delete_rec child rws")
          case NotFound
          then show ?thesis by (simp add: rw Some)
        next
          case (Stopped p c)
          with IH have "Get_loop c rs' = Get_loop child rs'" by simp
          with Stopped show ?thesis by (simp add: rw Some Cons True update_conv')
        next
          case (Pruning c)
          with IH have g: "Get_loop c rs' = Get_loop child rs'" by simp
          from Pruning have "c = RuneTrie None []" by (rule Delete_rec_Pruning)
          with g have none: "Get_loop child rs' = None" by (simp add: Get_loop_empty)
          show ?thesis using Pruning g none
            by (auto simp: rw Some Cons True update_conv' delete_conv')
        qed
      qed
    qed
  qed
qed

lemma Delete_frame:
  "runes k' \<noteq> runes k \<Longrightarrow> Get (snd (Delete trie k)) k' = Get trie k'"
proof -
  assume "runes k' \<noteq> runes k"
  then have ne: "runes k' \<noteq> map fst (decode k)" by (simp add: runes_def)
  show ?thesis
  proof (cases "Delete_rec trie (decode k)")
    case NotFound
    then show ?thesis by (simp add: Delete_by_recursion outcome_def)
  next
    case (Stopped p n)
    with Delete_rec_frame [OF ne, of trie] have "Get_loop n (runes k') = Get_loop trie (runes k')"
      by simp
    with Stopped show ?thesis by (cases p) (simp_all add: Delete_by_recursion outcome_def Get_def)
  next
    case (Pruning n)
    with Delete_rec_frame [OF ne, of trie] have "Get_loop n (runes k') = Get_loop trie (runes k')"
      by simp
    with Pruning show ?thesis by (simp add: Delete_by_recursion outcome_def Get_def)
  qed
qed

text \<open>
  So a sequence of calls on other keys leaves the value under \<open>k\<close> as it
  was, and a sequence of calls that keep \<open>k\<close> leaves a value under it.
\<close>

lemma apply_op_other: "other_key k op \<Longrightarrow> Get (apply_op trie op) k = Get trie k"
proof (cases op)
  case (PutOp key val)
  assume "other_key k op"
  with PutOp have "runes k \<noteq> runes key" by auto
  with PutOp show ?thesis by (simp add: Get_def Put_def Get_Put_loop_other)
next
  case (DeleteOp key)
  assume "other_key k op"
  with DeleteOp have "runes k \<noteq> runes key" by auto
  with DeleteOp show ?thesis by (simp add: Delete_frame)
qed

lemma apply_op_keeps: "keeps k op \<Longrightarrow> Get trie k \<noteq> None \<Longrightarrow> Get (apply_op trie op) k \<noteq> None"
proof (cases op)
  case (PutOp key val)
  assume k: "keeps k op" and g: "Get trie k \<noteq> None"
  show ?thesis
  proof (cases "runes key = runes k")
    case True
    with k PutOp have "val \<noteq> None" by simp
    with True PutOp show ?thesis by (simp add: Get_def Put_def Get_Put_loop_same)
  next
    case False
    then have "runes k \<noteq> runes key" by simp
    with PutOp g show ?thesis by (simp add: Get_def Put_def Get_Put_loop_other)
  qed
next
  case (DeleteOp key)
  assume k: "keeps k op" and g: "Get trie k \<noteq> None"
  from k DeleteOp have "runes k \<noteq> runes key" by auto
  with DeleteOp g show ?thesis by (simp add: Delete_frame)
qed

lemma apply_ops_other:
  "\<forall>op \<in> set ops. other_key k op \<Longrightarrow> Get (apply_ops trie ops) k = Get trie k"
  by (induction ops arbitrary: trie) (simp_all add: apply_op_other)

lemma apply_ops_keeps:
  "\<forall>op \<in> set ops. keeps k op \<Longrightarrow> Get trie k \<noteq> None \<Longrightarrow> Get (apply_ops trie ops) k \<noteq> None"
proof (induction ops arbitrary: trie)
  case Nil
  then show ?case by simp
next
  case (Cons op ops)
  from Cons.prems have "keeps k op" by simp
  then have "Get (apply_op trie op) k \<noteq> None"
    using Cons.prems(2) by (rule apply_op_keeps)
  moreover from Cons.prems have "\<forall>op \<in> set ops. keeps k op" by simp
  ultimately have "Get (apply_ops (apply_op trie op) ops) k \<noteq> None"
    by (rule Cons.IH [rotated])
  then show ?case by simp
qed

text \<open>
  C3, as the code has it: \<open>Put(k, v)\<close> returns true exactly when the key
  holds no value. Once a value that is not \<open>nil\<close> is stored under
  \<open>k\<close>, every later \<open>Put\<close> to \<open>k\<close> returns false whatever it stores,
  after any sequence of calls that keep \<open>k\<close>: \<open>Put\<close> and \<open>Delete\<close> on
  other keys, also a \<open>Delete\<close> that panics, and \<open>Put\<close> of values that
  are not \<open>nil\<close> to \<open>k\<close> itself. And after \<open>Delete(k)\<close> a \<open>Put\<close>
  to \<open>k\<close> returns true again, after any sequence of calls on other keys.
\<close>

theorem Put_isNewVal:
  "(fst (Put trie key val) \<longleftrightarrow> Get trie key = None) \<and>
   (val \<noteq> None \<and> (\<forall>op \<in> set ops. keeps key op) \<longrightarrow>
      \<not> fst (Put (apply_ops (snd (Put trie key val)) ops) key val')) \<and>
   ((\<forall>op \<in> set ops'. other_key key op) \<longrightarrow>
      fst (Put (apply_ops (snd (Delete trie key)) ops') key val'))"
proof -
  have a: "\<And>t v. fst (Put t key v) \<longleftrightarrow> Get t key = None"
    by (simp add: Put_def Get_def Put_loop_isNewVal)
  have b: "Get (snd (Put trie key val)) key = val"
    by (simp add: Get_def Put_def Get_Put_loop_same)
  have c: "Get (snd (Delete trie key)) key = None"
    using Delete_rec_Get [of trie "decode key"]
    by (cases "Delete_rec trie (decode key)")
       (auto simp: Delete_by_recursion outcome_def Get_def runes_def split: option.splits)
  have 2: "val \<noteq> None \<and> (\<forall>op \<in> set ops. keeps key op) \<longrightarrow>
      \<not> fst (Put (apply_ops (snd (Put trie key val)) ops) key val')"
    using apply_ops_keeps [of ops key "snd (Put trie key val)"] by (simp add: a b)
  have 3: "(\<forall>op \<in> set ops'. other_key key op) \<longrightarrow>
      fst (Put (apply_ops (snd (Delete trie key)) ops') key val')"
    using apply_ops_other [of ops' key "snd (Delete trie key)"] by (simp add: a c)
  from a 2 3 show ?thesis by blast
qed

theorem Put_isNewVal_witness:
  "fst (Put (NewRuneTrie :: nat RuneTrie) ''a'' (Some 1)) \<and>
   keeps ''a'' (PutOp ''ab'' (Some (2::nat))) \<and>
   keeps ''a'' (DeleteOp ''ab'' :: nat operation) \<and>
   keeps ''a'' (PutOp ''a'' (Some (4::nat))) \<and>
   \<not> fst (Put (apply_ops (snd (Put (NewRuneTrie :: nat RuneTrie) ''a'' (Some 1)))
                  [PutOp ''ab'' (Some 2), DeleteOp ''ab'', PutOp ''a'' (Some 4)]) ''a'' (Some 3)) \<and>
   other_key ''a'' (PutOp ''b'' (Some (5::nat))) \<and>
   fst (Put (apply_ops (snd (Delete (snd (Put (NewRuneTrie :: nat RuneTrie) ''a'' (Some 1))) ''a''))
              [PutOp ''b'' (Some 5)]) ''a'' (Some 3))"
proof -
  let ?ops = "[PutOp ''ab'' (Some 2), DeleteOp ''ab'', PutOp ''a'' (Some (4::nat))]"
  have g: "Get (NewRuneTrie :: nat RuneTrie) ''a'' = None" by code_simp
  have k1: "keeps ''a'' (PutOp ''ab'' (Some (2::nat)))" by code_simp
  have k2: "keeps ''a'' (DeleteOp ''ab'' :: nat operation)" by code_simp
  have k3: "keeps ''a'' (PutOp ''a'' (Some (4::nat)))" by code_simp
  have o1: "other_key ''a'' (PutOp ''b'' (Some (5::nat)))" by code_simp
  have ks: "\<forall>op \<in> set ?ops. keeps ''a'' op" using k1 k2 k3 by simp
  have ne: "Some (1::nat) \<noteq> None" by simp
  from Put_isNewVal [of "NewRuneTrie :: nat RuneTrie" "''a''" "Some 1" ?ops "Some 3"] g ks ne
  have 1: "fst (Put (NewRuneTrie :: nat RuneTrie) ''a'' (Some 1))"
    and 2: "\<not> fst (Put (apply_ops (snd (Put (NewRuneTrie :: nat RuneTrie) ''a'' (Some 1))) ?ops)
                    ''a'' (Some 3))"
    by blast+
  have os: "\<forall>op \<in> set [PutOp ''b'' (Some (5::nat))]. other_key ''a'' op" using o1 by simp
  from Put_isNewVal [of "snd (Put (NewRuneTrie :: nat RuneTrie) ''a'' (Some 1))" "''a''" "Some 1"
      "[]" "Some 3" "[PutOp ''b'' (Some 5)]"] os
  have 3: "fst (Put (apply_ops (snd (Delete (snd (Put (NewRuneTrie :: nat RuneTrie) ''a'' (Some 1))) ''a''))
              [PutOp ''b'' (Some 5)]) ''a'' (Some 3))"
    by blast
  from 1 k1 k2 k3 2 o1 3 show ?thesis by blast
qed

text \<open>
  C3 as it is stated fails when the value stored is \<open>nil\<close>: the second
  \<open>Put\<close> to the key returns true as well.
\<close>

theorem Put_twice_nil_counterexample:
  "fst (Put (NewRuneTrie :: nat RuneTrie) ''a'' None) \<and>
   fst (Put (snd (Put (NewRuneTrie :: nat RuneTrie) ''a'' None)) ''a'' (Some 1))"
  by code_simp

text \<open>
  C2 at a key of one rune of two bytes: \<open>Delete\<close> of the key just stored
  panics in the second loop, at \<open>path[1]\<close>, and leaves the node in the trie,
  without its value.
\<close>

theorem Delete_multibyte_panics:
  "Delete (snd (Put NewRuneTrie [CHR 0xC3, CHR 0xA9] (Some (1::nat)))) [CHR 0xC3, CHR 0xA9]
   = (Inl NilPointerDereference, RuneTrie None [(0xE9, RuneTrie None [])])"
  by code_simp

text \<open>
  C7 at a key of one rune of three bytes: the key's node is reachable and
  \<open>Delete\<close> does not return true.
\<close>

theorem Delete_reachable_not_true:
  "node_at (snd (Put NewRuneTrie [CHR 0xE6, CHR 0x97, CHR 0xA5] (Some (1::nat))))
     (runes [CHR 0xE6, CHR 0x97, CHR 0xA5]) = Some (RuneTrie (Some 1) []) \<and>
   fst (Delete (snd (Put NewRuneTrie [CHR 0xE6, CHR 0x97, CHR 0xA5] (Some (1::nat))))
     [CHR 0xE6, CHR 0x97, CHR 0xA5]) = Inl NilPointerDereference"
  by code_simp

text \<open>
  What holds of the result of \<open>Delete\<close>: false exactly when the key's node
  is not reachable, and then the trie is as it was; and no panic when every
  rune of the key is one byte wide.
\<close>

lemma Delete_false_iff:
  "fst (Delete trie key) = Inr False \<longleftrightarrow> node_at trie (runes key) = None"
  using Delete_rec_NotFound [of trie "decode key"]
  by (cases "Delete_rec trie (decode key)")
     (auto simp: Delete_by_recursion outcome_def runes_def split: option.splits)

lemma Delete_false_unchanged:
  "fst (Delete trie key) = Inr False \<Longrightarrow> snd (Delete trie key) = trie"
  by (cases "Delete_rec trie (decode key)")
     (auto simp: Delete_by_recursion outcome_def split: option.splits)

lemma Delete_rec_single_byte:
  "\<forall>x \<in> set rws. snd x = 1 \<Longrightarrow> Delete_rec n rws \<noteq> Stopped (Some p) n'"
proof (induction rws arbitrary: n n')
  case Nil
  show ?case by simp
next
  case (Cons rw rws)
  obtain r w where rw: "rw = (r, w)" by (cases rw)
  show ?case
  proof (cases "map_of (Children n) r")
    case None
    then show ?thesis by (simp add: rw)
  next
    case (Some child)
    show ?thesis using Cons.IH [of child] Cons.prems Some
      by (cases "Delete_rec child rws") (auto simp: rw)
  qed
qed

lemma Delete_single_byte_returns:
  assumes sb: "\<forall>x \<in> set (decode key). snd x = 1"
  shows "fst (Delete trie key) = Inr (node_at trie (runes key) \<noteq> None)"
proof (cases "Delete_rec trie (decode key)")
  case NotFound
  then show ?thesis using Delete_rec_NotFound [of trie "decode key"]
    by (simp add: Delete_by_recursion outcome_def runes_def)
next
  case (Stopped p n)
  from Stopped Delete_rec_single_byte [OF sb, of trie] have "p = None" by (cases p) auto
  with Stopped show ?thesis using Delete_rec_NotFound [of trie "decode key"]
    by (auto simp: Delete_by_recursion outcome_def runes_def)
next
  case (Pruning n)
  then show ?thesis using Delete_rec_NotFound [of trie "decode key"]
    by (auto simp: Delete_by_recursion outcome_def runes_def)
qed

section \<open>Well-formed tries\<close>

text \<open>
  The empty trie is well formed, and \<open>Put\<close> and \<open>Delete\<close> keep a trie
  well formed.
\<close>

lemma well_formed_Children:
  "well_formed trie \<longleftrightarrow>
   distinct (map fst (Children trie)) \<and> (\<forall>(r, c) \<in> set (Children trie). well_formed c)"
  by (cases trie) simp

lemma well_formed_update:
  assumes "well_formed n" and "well_formed c"
  shows "well_formed (RuneTrie vo (AList.update r c (Children n)))"
proof -
  from assms(1) have d: "distinct (map fst (Children n))"
    and a: "\<forall>x \<in> set (Children n). well_formed (snd x)"
    by (auto simp: well_formed_Children [of n])
  have "\<forall>x \<in> set (AList.update r c (Children n)). well_formed (snd x)"
    using a assms(2) set_update_subset [of r c "Children n"] by fastforce
  with d show ?thesis by (simp add: distinct_update case_prod_beta)
qed

lemma well_formed_delete:
  assumes "well_formed n"
  shows "well_formed (RuneTrie vo (AList.delete r (Children n)))"
proof -
  from assms(1) have d: "distinct (map fst (Children n))"
    and a: "\<forall>x \<in> set (Children n). well_formed (snd x)"
    by (auto simp: well_formed_Children [of n])
  have "\<forall>x \<in> set (AList.delete r (Children n)). well_formed (snd x)"
    using a set_delete_subset [of r "Children n"] by fastforce
  with d show ?thesis by (simp add: distinct_delete case_prod_beta)
qed

lemma well_formed_child:
  assumes "well_formed n" and "map_of (Children n) r = Some c"
  shows "well_formed c"
proof -
  from assms(1) have a: "\<forall>x \<in> set (Children n). well_formed (snd x)"
    by (auto simp: well_formed_Children [of n])
  from map_of_SomeD [OF assms(2)] have "(r, c) \<in> set (Children n)" .
  with a show ?thesis by fastforce
qed

lemma well_formed_New: "well_formed NewRuneTrie"
  by (simp add: NewRuneTrie_def)

lemma Put_loop_well_formed: "well_formed n \<Longrightarrow> well_formed (snd (Put_loop n rs val))"
proof (induction rs arbitrary: n)
  case Nil
  then show ?case by (simp add: well_formed_Children [of n])
next
  case (Cons r rs)
  let ?child = "case map_of (Children n) r of None \<Rightarrow> NewRuneTrie | Some c \<Rightarrow> c"
  have "well_formed ?child"
    using Cons.prems well_formed_child [of n r] well_formed_New by (auto split: option.splits)
  then have "well_formed (snd (Put_loop ?child rs val))" by (rule Cons.IH)
  then have "well_formed (RuneTrie (Value n) (AList.update r (snd (Put_loop ?child rs val)) (Children n)))"
    by (rule well_formed_update [OF Cons.prems])
  then show ?case by (simp add: Let_def del: well_formed.simps)
qed

lemma Delete_rec_well_formed:
  "well_formed n \<Longrightarrow>
   (\<forall>p n'. Delete_rec n rws = Stopped p n' \<longrightarrow> well_formed n') \<and>
   (\<forall>n'. Delete_rec n rws = Pruning n' \<longrightarrow> well_formed n')"
proof (induction rws arbitrary: n)
  case Nil
  then show ?case by (auto simp: well_formed_Children [of n])
next
  case (Cons rw rws)
  obtain r w where rw: "rw = (r, w)" by (cases rw)
  show ?case
  proof (cases "map_of (Children n) r")
    case None
    then show ?thesis by (simp add: rw)
  next
    case (Some child)
    have wc: "well_formed child" by (rule well_formed_child [OF Cons.prems Some])
    note IH = Cons.IH [OF wc]
    have d: "well_formed (RuneTrie (Value n) (AList.delete r (Children n)))"
      by (rule well_formed_delete [OF Cons.prems])
    have e: "\<And>vo. well_formed (RuneTrie vo ([] :: (rune \<times> 'a RuneTrie) list))" by simp
    show ?thesis
    proof (cases "Delete_rec child rws")
      case NotFound
      then show ?thesis by (simp add: rw Some)
    next
      case (Stopped p c)
      with IH have "well_formed c" by simp
      then have "well_formed (RuneTrie (Value n) (AList.update r c (Children n)))"
        by (rule well_formed_update [OF Cons.prems])
      with Stopped show ?thesis by (simp add: rw Some del: well_formed.simps)
    next
      case (Pruning c)
      with IH have "well_formed c" by simp
      then have "well_formed (RuneTrie (Value n) (AList.update r c (Children n)))"
        by (rule well_formed_update [OF Cons.prems])
      with Pruning d e show ?thesis by (simp add: rw Some del: well_formed.simps)
    qed
  qed
qed

lemma Put_well_formed: "well_formed trie \<Longrightarrow> well_formed (snd (Put trie key val))"
  by (simp add: Put_def Put_loop_well_formed)

lemma Delete_well_formed: "well_formed trie \<Longrightarrow> well_formed (snd (Delete trie key))"
proof (cases "Delete_rec trie (decode key)")
  case NotFound
  assume "well_formed trie"
  with NotFound show ?thesis by (simp add: Delete_by_recursion outcome_def)
next
  case (Stopped p n)
  assume "well_formed trie"
  from Delete_rec_well_formed [OF this, of "decode key"] Stopped have "well_formed n" by simp
  with Stopped show ?thesis by (cases p) (simp_all add: Delete_by_recursion outcome_def)
next
  case (Pruning n)
  assume "well_formed trie"
  from Delete_rec_well_formed [OF this, of "decode key"] Pruning have "well_formed n" by simp
  with Pruning show ?thesis by (simp add: Delete_by_recursion outcome_def)
qed

section \<open>Walk and WalkPath\<close>

text \<open>
  Calling a walker on a list of keys and values in turn, up to the first error.
\<close>

fun visit :: "('v, 'e, 's) WalkFunc \<Rightarrow> (string \<times> 'v) list \<Rightarrow> 's \<Rightarrow> 'e option \<times> 's" where
  "visit walker [] s = (None, s)"
| "visit walker ((key, v) # kvs) s =
    (case walker key v s of
       (Some err, s1) \<Rightarrow> (Some err, s1)
     | (None, s1) \<Rightarrow> visit walker kvs s1)"

text \<open>
  The nodes of a trie that hold a value, each with the runes that lead to it,
  in the order \<open>walk\<close> reaches them; and the same list with the keys that
  \<open>walk\<close> builds from \<open>key\<close>.
\<close>

fun paths :: "'v RuneTrie \<Rightarrow> (rune list \<times> 'v) list"
  and paths_children :: "(rune \<times> 'v RuneTrie) list \<Rightarrow> (rune list \<times> 'v) list" where
  "paths (RuneTrie vo cs) = (case vo of None \<Rightarrow> [] | Some v \<Rightarrow> [([], v)]) @ paths_children cs"
| "paths_children [] = []"
| "paths_children ((r, child) # cs) =
    map (\<lambda>(rs, v). (r # rs, v)) (paths child) @ paths_children cs"

definition keyed :: "string \<Rightarrow> (rune list \<times> 'v) list \<Rightarrow> (string \<times> 'v) list" where
  "keyed key ps = map (\<lambda>(rs, v). (key @ string_of_runes rs, v)) ps"

text \<open>
  The keys and values \<open>WalkPath\<close> meets below the root.
\<close>

fun WalkPath_calls :: "'v RuneTrie \<Rightarrow> string \<Rightarrow> (nat \<times> rune) list \<Rightarrow> (string \<times> 'v) list" where
  "WalkPath_calls trie key [] = []"
| "WalkPath_calls trie key ((i, r) # irs) =
    (case map_of (Children trie) r of
       None \<Rightarrow> []
     | Some child \<Rightarrow>
         (case Value child of None \<Rightarrow> [] | Some v \<Rightarrow> [(take (i + 1) key, v)])
         @ WalkPath_calls child key irs)"

lemma visit_append:
  "visit w (xs @ ys) s =
    (case visit w xs s of (Some err, s1) \<Rightarrow> (Some err, s1) | (None, s1) \<Rightarrow> visit w ys s1)"
  by (induction xs arbitrary: s) (auto split: prod.splits option.splits)

lemma keyed_simps:
  "keyed key [] = []"
  "keyed key (xs @ ys) = keyed key xs @ keyed key ys"
  "keyed key (([], v) # ps) = (key, v) # keyed key ps"
  "keyed key (map (\<lambda>(rs, v). (r # rs, v)) ps) = keyed (key @ string_of_rune r) ps"
  by (auto simp: keyed_def string_of_runes_def)

lemma walk_visit:
  "walk trie key w s = visit w (keyed key (paths trie)) s"
  "walk_children cs key w s = visit w (keyed key (paths_children cs)) s"
proof (induction trie key w s and cs key w s rule: walk_walk_children.induct)
  case (1 vo cs key walker s)
  then show ?case
    by (cases vo) (auto simp: keyed_simps split: prod.splits option.splits)
next
  case (2 key walker s)
  show ?case by (simp add: keyed_simps)
next
  case (3 r child cs key walker s)
  then show ?case
    by (auto simp: keyed_simps visit_append split: prod.splits option.splits)
qed

lemma WalkPath_loop_visit:
  "WalkPath_loop trie key irs w s = visit w (WalkPath_calls trie key irs) s"
proof (induction irs arbitrary: trie s)
  case Nil
  show ?case by simp
next
  case (Cons ir irs)
  obtain i r where ir: "ir = (i, r)" by (cases ir)
  show ?case
    by (auto simp: ir Cons.IH split: option.splits prod.splits)
qed

lemma WalkPath_visit:
  "WalkPath trie key w s =
   visit w ((case Value trie of None \<Rightarrow> [] | Some v \<Rightarrow> [([], v)])
            @ WalkPath_calls trie key (range_string key)) s"
  by (auto simp: WalkPath_def WalkPath_loop_visit split: option.splits prod.splits)

lemma Walk_visit: "Walk trie w s = visit w (keyed [] (paths trie)) s"
  by (simp add: Walk_def walk_visit)

lemma visit_never:
  "\<forall>key v s. fst (w key v s) = None \<Longrightarrow>
   visit w xs s = (None, fold (\<lambda>(key, v) s. snd (w key v s)) xs s)"
proof (induction xs arbitrary: s)
  case Nil
  show ?case by simp
next
  case (Cons x xs)
  obtain k v where x: "x = (k, v)" by (cases x)
  from Cons.prems have "fst (w k v s) = None" by blast
  then obtain s1 where s1: "w k v s = (None, s1)" by (cases "w k v s") simp
  show ?case using Cons.IH [OF Cons.prems, of s1] by (simp add: x s1)
qed

lemma fold_keyed:
  "fold (\<lambda>(key, v) s. snd (w key v s)) (keyed k ps) s
   = fold (\<lambda>(rs, v) s. snd (w (k @ string_of_runes rs) v s)) ps s"
  by (induction ps arbitrary: s) (auto simp: keyed_def)

lemma paths_children_mem:
  "(rs', v) \<in> set (paths_children cs) \<longleftrightarrow>
   (\<exists>r c rs. rs' = r # rs \<and> (r, c) \<in> set cs \<and> (rs, v) \<in> set (paths c))"
proof (induction cs)
  case Nil
  show ?case by simp
next
  case (Cons rc cs)
  obtain r0 c0 where rc: "rc = (r0, c0)" by (cases rc)
  have "(rs', v) \<in> set (map (\<lambda>(rs, v). (r0 # rs, v)) (paths c0))
        \<longleftrightarrow> (\<exists>rs. rs' = r0 # rs \<and> (rs, v) \<in> set (paths c0))"
    by force
  with Cons.IH show ?case unfolding rc by (simp only: paths_children.simps set_append Un_iff set_simps insert_iff prod.inject) blast
qed

lemma paths_Nil: "([], v) \<in> set (paths trie) \<longleftrightarrow> Value trie = Some v"
  by (cases trie) (auto simp: paths_children_mem split: option.splits)

lemma paths_Cons:
  "(r # rs, v) \<in> set (paths trie) \<longleftrightarrow> (\<exists>c. (r, c) \<in> set (Children trie) \<and> (rs, v) \<in> set (paths c))"
  by (cases trie) (auto simp: paths_children_mem split: option.splits)

lemma paths_node_at:
  "well_formed trie \<Longrightarrow>
   (rs, v) \<in> set (paths trie) \<longleftrightarrow> (\<exists>n. node_at trie rs = Some n \<and> Value n = Some v)"
proof (induction rs arbitrary: trie)
  case Nil
  show ?case by (simp add: paths_Nil)
next
  case (Cons r rs)
  from Cons.prems have d: "distinct (map fst (Children trie))"
    and wc: "\<And>c. (r, c) \<in> set (Children trie) \<Longrightarrow> well_formed c"
    by (auto simp: well_formed_Children [of trie])
  have m: "\<And>c. (r, c) \<in> set (Children trie) \<longleftrightarrow> map_of (Children trie) r = Some c"
    using d by simp
  show ?case
  proof (cases "map_of (Children trie) r")
    case None
    then show ?thesis by (simp add: paths_Cons m)
  next
    case (Some c)
    then have "well_formed c" using wc m by simp
    from Cons.IH [OF this] Some show ?thesis by (simp add: paths_Cons m)
  qed
qed

lemma paths_distinct:
  fixes trie :: "'v RuneTrie" and cs :: "(rune \<times> 'v RuneTrie) list"
  shows "well_formed trie \<Longrightarrow> distinct (map fst (paths trie))"
    and "distinct (map fst cs) \<Longrightarrow> (\<forall>(r, c) \<in> set cs. well_formed c)
         \<Longrightarrow> distinct (map fst (paths_children cs))"
proof (induction trie and cs rule: paths_paths_children.induct)
  case (1 vo cs)
  then have "distinct (map fst (paths_children cs))" by simp
  moreover have "[] \<notin> fst ` set (paths_children cs)"
    by (auto simp: paths_children_mem)
  ultimately show ?case by (cases vo) auto
next
  case 2
  show ?case by simp
next
  case (3 r child cs)
  from 3 have a: "distinct (map fst (paths child))" by simp
  from 3 have b: "distinct (map fst (paths_children cs))" by simp
  have c: "distinct (map fst (map (\<lambda>(rs, v). (r # rs, v)) (paths child)))"
  proof -
    have e: "fst \<circ> (\<lambda>(rs, v). (r # rs, v)) = (#) r \<circ> (fst :: rune list \<times> 'v \<Rightarrow> rune list)"
      by (auto simp: fun_eq_iff)
    have "distinct (map ((#) r \<circ> fst) (paths child))"
      using a by (auto simp: distinct_map inj_on_def)
    then show ?thesis by (simp add: e)
  qed
  have d: "set (map fst (map (\<lambda>(rs, v). (r # rs, v)) (paths child)))
           \<inter> set (map fst (paths_children cs)) = {}"
  proof -
    have "\<And>rs v c. (r # rs, v) \<in> set (paths_children cs) \<Longrightarrow> False"
      using "3.prems"(1) by (force simp: paths_children_mem)
    then show ?thesis by force
  qed
  from b c d show ?case
    unfolding paths_children.simps map_append distinct_append by blast
qed

lemma paths_root_first: "Value trie = Some v \<Longrightarrow> paths trie \<noteq> [] \<and> hd (paths trie) = ([], v)"
  by (cases trie) simp

text \<open>
  The trie of the specification's examples, \<open>{"a": 1, "ab": 2, "b": 3}\<close>, a
  walker that never fails and one that fails at its second call.
\<close>

definition example_trie :: "nat RuneTrie" where
  "example_trie =
    snd (Put (snd (Put (snd (Put NewRuneTrie ''a'' (Some 1))) ''ab'' (Some 2))) ''b'' (Some 3))"

definition never :: "(string \<times> nat) list \<Rightarrow> string \<Rightarrow> nat \<Rightarrow> string option" where
  "never calls key v = None"

definition fail_on_second :: "(string \<times> nat) list \<Rightarrow> string \<Rightarrow> nat \<Rightarrow> string option" where
  "fail_on_second calls key v = (if length calls = 1 then Some ''stop'' else None)"

lemma fold_logged:
  "fold (\<lambda>(rs, v) s. snd (logged f (g rs) v s)) ps h = h @ map (\<lambda>(rs, v). (g rs, v)) ps"
  by (induction ps arbitrary: h) (auto simp: logged_def)

text \<open>
  C8: in a well-formed trie there is a list \<open>ps\<close> of the nodes that hold a
  value, each once (\<open>distinct\<close>), each with the runes that lead to it and
  its value, the root first if it holds a value, such that \<open>Walk\<close> with any
  walker that never fails returns \<open>nil\<close> after calling the walker on each
  element of \<open>ps\<close> in turn, with the key built from the runes and the
  value. The order of \<open>ps\<close> is the order of the children lists, which is
  arbitrary.
\<close>

theorem Walk_visits_each_once:
  assumes "well_formed trie"
  shows "\<exists>ps. distinct (map fst ps)
           \<and> (\<forall>rs v. (rs, v) \<in> set ps \<longleftrightarrow> (\<exists>n. node_at trie rs = Some n \<and> Value n = Some v))
           \<and> (\<forall>v. Value trie = Some v \<longrightarrow> ps \<noteq> [] \<and> hd ps = ([], v))
           \<and> (\<forall>(w :: ('v, 'e, 's) WalkFunc) s. (\<forall>key v s. fst (w key v s) = None) \<longrightarrow>
                 Walk trie w s
                 = (None, fold (\<lambda>(rs, v) s. snd (w (string_of_runes rs) v s)) ps s))"
proof (intro exI [of _ "paths trie"] conjI allI impI)
  show "distinct (map fst (paths trie))" by (rule paths_distinct(1) [OF assms])
next
  fix rs v
  show "(rs, v) \<in> set (paths trie) \<longleftrightarrow> (\<exists>n. node_at trie rs = Some n \<and> Value n = Some v)"
    by (rule paths_node_at [OF assms])
next
  fix v assume "Value trie = Some v"
  then show "paths trie \<noteq> []" and "hd (paths trie) = ([], v)"
    using paths_root_first [of trie v] by simp_all
next
  fix w :: "('v, 'e, 's) WalkFunc" and s
  assume nev: "\<forall>key v s. fst (w key v s) = None"
  have "fold (\<lambda>(key, v) s. snd (w key v s)) (keyed [] (paths trie)) s
        = fold (\<lambda>(rs, v) s. snd (w (string_of_runes rs) v s)) (paths trie) s"
    using fold_keyed [of w "[]" "paths trie" s] by simp
  with visit_never [OF nev] show
    "Walk trie w s = (None, fold (\<lambda>(rs, v) s. snd (w (string_of_runes rs) v s)) (paths trie) s)"
    by (simp add: Walk_visit)
qed

theorem Walk_visits_each_once_witness:
  "well_formed example_trie \<and>
   Walk example_trie (logged never) [] = (None, [(''a'', 1), (''ab'', 2), (''b'', 3)]) \<and>
   (\<exists>ps. distinct (map fst ps)
      \<and> (\<forall>rs v. (rs, v) \<in> set ps
                 \<longleftrightarrow> (\<exists>n. node_at example_trie rs = Some n \<and> Value n = Some v))
      \<and> Walk example_trie (logged never) [] = (None, map (\<lambda>(rs, v). (string_of_runes rs, v)) ps))"
proof -
  have wf: "well_formed example_trie" by code_simp
  have ev: "Walk example_trie (logged never) [] = (None, [(''a'', 1), (''ab'', 2), (''b'', 3)])"
    by code_simp
  have nev: "\<forall>key v s. fst (logged never key v s) = None"
    by (simp add: logged_def never_def)
  from Walk_visits_each_once [OF wf, where 'e = string and 's = "(string \<times> nat) list"]
  obtain ps where d: "distinct (map fst ps)"
    and m: "\<forall>rs v. (rs, v) \<in> set ps
                 \<longleftrightarrow> (\<exists>n. node_at example_trie rs = Some n \<and> Value n = Some v)"
    and w: "\<forall>(w :: (nat, string, (string \<times> nat) list) WalkFunc) s.
              (\<forall>key v s. fst (w key v s) = None) \<longrightarrow>
              Walk example_trie w s
              = (None, fold (\<lambda>(rs, v) s. snd (w (string_of_runes rs) v s)) ps s)"
    by blast
  from w nev have "Walk example_trie (logged never) []
      = (None, fold (\<lambda>(rs, v) s. snd (logged never (string_of_runes rs) v s)) ps [])"
    by blast
  then have "Walk example_trie (logged never) [] = (None, map (\<lambda>(rs, v). (string_of_runes rs, v)) ps)"
    by (simp add: fold_logged)
  with wf ev d m show ?thesis by blast
qed

text \<open>
  The calls a walk makes to a walker \<open>logged f\<close>, from the history \<open>h\<close>
  on, and its result \<open>r\<close>: every call but the last was answered \<open>nil\<close>,
  the answer to the last call is \<open>r\<close>, and an error is the answer to some
  call.
\<close>

definition first_error ::
  "((string \<times> 'v) list \<Rightarrow> string \<Rightarrow> 'v \<Rightarrow> 'e option) \<Rightarrow> (string \<times> 'v) list
   \<Rightarrow> 'e option \<Rightarrow> (string \<times> 'v) list \<Rightarrow> bool" where
  "first_error f h r cs =
    ((\<forall>i<length cs. f (h @ take i cs) (fst (cs ! i)) (snd (cs ! i))
                      = (if Suc i = length cs then r else None))
     \<and> (r \<noteq> None \<longrightarrow> cs \<noteq> []))"

lemma first_error_Cons:
  assumes "f h k v = None" and "first_error f (h @ [(k, v)]) r cs"
  shows "first_error f h r ((k, v) # cs)"
  unfolding first_error_def
proof (intro conjI allI impI)
  fix i assume i: "i < length ((k, v) # cs)"
  show "f (h @ take i ((k, v) # cs)) (fst (((k, v) # cs) ! i)) (snd (((k, v) # cs) ! i))
        = (if Suc i = length ((k, v) # cs) then r else None)"
  proof (cases i)
    case 0
    have "cs = [] \<Longrightarrow> r = None" using assms(2) by (auto simp: first_error_def)
    with 0 assms(1) show ?thesis by auto
  next
    case (Suc j)
    with i have j: "j < length cs" by simp
    with assms(2) have "f ((h @ [(k, v)]) @ take j cs) (fst (cs ! j)) (snd (cs ! j))
                        = (if Suc j = length cs then r else None)"
      unfolding first_error_def by blast
    with Suc show ?thesis by simp
  qed
next
  show "(k, v) # cs \<noteq> []" by simp
qed

lemma visit_logged_trace:
  "\<exists>cs. snd (visit (logged f) xs h) = h @ cs \<and> first_error f h (fst (visit (logged f) xs h)) cs"
proof (induction xs arbitrary: h)
  case Nil
  show ?case by (simp add: first_error_def)
next
  case (Cons x xs)
  obtain k v where x: "x = (k, v)" by (cases x)
  show ?case
  proof (cases "f h k v")
    case (Some e)
    then have "visit (logged f) (x # xs) h = (Some e, h @ [(k, v)])"
      by (simp add: x logged_def)
    moreover have "first_error f h (Some e) [(k, v)]" using Some by (simp add: first_error_def)
    ultimately show ?thesis by auto
  next
    case None
    then have eq: "visit (logged f) (x # xs) h = visit (logged f) xs (h @ [(k, v)])"
      by (simp add: x logged_def)
    from Cons.IH [of "h @ [(k, v)]"] obtain cs where
      cs: "snd (visit (logged f) xs (h @ [(k, v)])) = (h @ [(k, v)]) @ cs"
        "first_error f (h @ [(k, v)]) (fst (visit (logged f) xs (h @ [(k, v)]))) cs"
      by blast
    from first_error_Cons [OF None cs(2)] cs(1) eq
    show ?thesis by auto
  qed
qed

lemma first_error_visit:
  "first_error f [] (fst (visit (logged f) xs [])) (snd (visit (logged f) xs []))"
  using visit_logged_trace [of f xs "[]"] by auto

text \<open>
  C9: let \<open>res\<close> be the result of \<open>Walk\<close> or of \<open>WalkPath\<close> with a
  walker \<open>logged f\<close>: the error returned and the calls made. Every call but
  the last was answered \<open>nil\<close>, and the answer to the last call is the error
  returned, unchanged: a call that fails is the last one, and its error is the
  result; when no call fails the result is \<open>nil\<close>.
\<close>

theorem visitor_error_aborts:
  assumes "res = Walk trie (logged f) [] \<or> res = WalkPath trie key (logged f) []"
  shows "(\<forall>i<length (snd res).
            f (take i (snd res)) (fst (snd res ! i)) (snd (snd res ! i))
            = (if Suc i = length (snd res) then fst res else None))
         \<and> (fst res \<noteq> None \<longrightarrow> snd res \<noteq> [])"
proof -
  from assms obtain xs where "res = visit (logged f) xs []"
    by (auto simp: Walk_visit WalkPath_visit)
  with first_error_visit [of f xs] show ?thesis
    by (simp add: first_error_def)
qed

theorem visitor_error_aborts_witness:
  "Walk example_trie (logged fail_on_second) [] = (Some ''stop'', [(''a'', 1), (''ab'', 2)]) \<and>
   fail_on_second [] ''a'' 1 = None \<and>
   fail_on_second [(''a'', 1)] ''ab'' 2 = Some ''stop''"
proof -
  let ?res = "(Some ''stop'', [(''a'', 1::nat), (''ab'', 2)])"
  have ev: "Walk example_trie (logged fail_on_second) [] = ?res"
    by code_simp
  then have "?res = Walk example_trie (logged fail_on_second) []
             \<or> ?res = WalkPath example_trie ''ab'' (logged fail_on_second) []"
    by simp
  from visitor_error_aborts [OF this]
  have all: "\<forall>i<length (snd ?res).
            fail_on_second (take i (snd ?res)) (fst (snd ?res ! i)) (snd (snd ?res ! i))
            = (if Suc i = length (snd ?res) then fst ?res else None)"
    by blast
  from all [rule_format, of 0] have a: "fail_on_second [] ''a'' 1 = None" by simp
  from all [rule_format, of 1] have b: "fail_on_second [(''a'', 1)] ''ab'' 2 = Some ''stop''" by simp
  from ev a b show ?thesis by blast
qed

text \<open>
  Every walker is a logged one. A walker \<open>w\<close> started in the state \<open>s\<close>
  answers a call after the calls \<open>calls\<close> as \<open>answers w s\<close> says, and
  its state then is \<open>replay w calls s\<close>; a walk with \<open>w\<close> returns what
  the walk with \<open>logged (answers w s)\<close> returns and leaves \<open>w\<close> in the
  state that the calls made lead to.
\<close>

definition replay :: "('v, 'e, 's) WalkFunc \<Rightarrow> (string \<times> 'v) list \<Rightarrow> 's \<Rightarrow> 's" where
  "replay w calls s = fold (\<lambda>(key, v) s. snd (w key v s)) calls s"

definition answers ::
  "('v, 'e, 's) WalkFunc \<Rightarrow> 's \<Rightarrow> (string \<times> 'v) list \<Rightarrow> string \<Rightarrow> 'v \<Rightarrow> 'e option" where
  "answers w s calls key v = fst (w key v (replay w calls s))"

lemma visit_logged_answers:
  "visit w xs (replay w h s0)
   = (fst (visit (logged (answers w s0)) xs h),
      replay w (snd (visit (logged (answers w s0)) xs h)) s0)"
proof (induction xs arbitrary: h)
  case Nil
  show ?case by simp
next
  case (Cons x xs)
  obtain k v where x: "x = (k, v)" by (cases x)
  obtain e s1 where w: "w k v (replay w h s0) = (e, s1)" by (cases "w k v (replay w h s0)")
  have "replay w (h @ [(k, v)]) s0 = snd (w k v (replay w h s0))" by (simp add: replay_def)
  then have r: "replay w (h @ [(k, v)]) s0 = s1" by (simp add: w)
  show ?case
  proof (cases e)
    case None
    with Cons.IH [of "h @ [(k, v)]"] show ?thesis
      by (simp add: x w r logged_def answers_def)
  next
    case (Some err)
    then show ?thesis by (simp add: x w r logged_def answers_def)
  qed
qed

lemma Walk_logged_answers:
  "Walk trie w s
   = (fst (Walk trie (logged (answers w s)) []),
      replay w (snd (Walk trie (logged (answers w s)) [])) s)"
  using visit_logged_answers [of w _ "[]" s] by (simp add: Walk_visit replay_def)

lemma WalkPath_logged_answers:
  "WalkPath trie key w s
   = (fst (WalkPath trie key (logged (answers w s)) []),
      replay w (snd (WalkPath trie key (logged (answers w s)) [])) s)"
  using visit_logged_answers [of w _ "[]" s] by (simp add: WalkPath_visit replay_def)

text \<open>
  C4 at a key of one rune of two bytes that holds a value: \<open>WalkPath\<close> calls
  the walker with \<open>key[0:i+1]\<close>, the first byte of the key, where
  \<open>Walk\<close> passes the whole key.
\<close>

theorem WalkPath_multibyte_key:
  "WalkPath (snd (Put NewRuneTrie [CHR 0xC3, CHR 0xA9] (Some (1::nat)))) [CHR 0xC3, CHR 0xA9]
     (logged never) []
   = (None, [([CHR 0xC3], 1)])"
  by code_simp

lemma Walk_multibyte_key:
  "Walk (snd (Put NewRuneTrie [CHR 0xC3, CHR 0xA9] (Some (1::nat)))) (logged never) []
   = (None, [([CHR 0xC3, CHR 0xA9], 1)])"
  by code_simp

section \<open>UTF-8: what is encoded decodes to itself\<close>

text \<open>
  The code points that UTF-8 encodes: up to \<open>0x10FFFF\<close>, the surrogates
  left out. \<open>range\<close> yields such runes only, and the encoding of a sequence
  of them decodes to the same sequence: a key given as a sequence of code
  points reaches the trie as that sequence, and two such keys that differ
  give different runes.
\<close>

definition valid_rune :: "rune \<Rightarrow> bool" where
  "valid_rune r = (0 \<le> r \<and> r \<le> 0x10FFFF \<and> \<not> (0xD800 \<le> r \<and> r \<le> 0xDFFF))"

lemma byte_chr: "0 \<le> n \<Longrightarrow> n < 256 \<Longrightarrow> byte (chr n) = n"
  by (simp add: byte_def chr_def)

lemma lead_mod: "0 \<le> a \<Longrightarrow> a < n \<Longrightarrow> (k * n + a) mod n = (a::int)"
  by simp

lemma decoderune1: "byte c0 < 0x80 \<Longrightarrow> decoderune (c0 # rest) = (byte c0, 1)"
  by simp

lemma decoderune2:
  assumes "0xC0 \<le> byte c0" "byte c0 < 0xE0" "0x80 \<le> byte c1" "byte c1 \<le> 0xBF"
    and "0x7F < byte c0 mod 32 * 64 + byte c1 mod 64"
  shows "decoderune (c0 # c1 # rest) = (byte c0 mod 32 * 64 + byte c1 mod 64, 2)"
  using assms by (simp add: cont_def Let_def)

lemma decoderune3:
  assumes "0xE0 \<le> byte c0" "byte c0 < 0xF0" "0x80 \<le> byte c1" "byte c1 \<le> 0xBF"
    "0x80 \<le> byte c2" "byte c2 \<le> 0xBF"
    and "r = byte c0 mod 16 * 4096 + byte c1 mod 64 * 64 + byte c2 mod 64"
    and "0x7FF < r" "\<not> (0xD800 \<le> r \<and> r \<le> 0xDFFF)"
  shows "decoderune (c0 # c1 # c2 # rest) = (r, 3)"
  using assms by (simp add: cont_def Let_def)

lemma decoderune4:
  assumes "0xF0 \<le> byte c0" "byte c0 < 0xF8" "0x80 \<le> byte c1" "byte c1 \<le> 0xBF"
    "0x80 \<le> byte c2" "byte c2 \<le> 0xBF" "0x80 \<le> byte c3" "byte c3 \<le> 0xBF"
    and "r = byte c0 mod 8 * 262144 + byte c1 mod 64 * 4096 + byte c2 mod 64 * 64 + byte c3 mod 64"
    and "0xFFFF < r" "r \<le> 0x10FFFF"
  shows "decoderune (c0 # c1 # c2 # c3 # rest) = (r, 4)"
  using assms by (simp add: cont_def Let_def)

lemma decoderune2':
  assumes "byte c0 = 0xC0 + a" "byte c1 = 0x80 + b" "0 \<le> a" "a < 32" "0 \<le> b" "b < 64"
    and "0x7F < a * 64 + b"
  shows "decoderune (c0 # c1 # rest) = (a * 64 + b, 2)"
proof -
  have m0: "(0xC0 + a) mod 32 = a" using lead_mod [of a 32 6] assms by simp
  have m1: "(0x80 + b) mod 64 = b" using lead_mod [of b 64 2] assms by simp
  have "decoderune (c0 # c1 # rest) = (byte c0 mod 32 * 64 + byte c1 mod 64, 2)"
    by (rule decoderune2) (use assms in \<open>simp_all add: m0 m1\<close>)
  then show ?thesis using assms by (simp add: m0 m1 del: decoderune.simps)
qed

lemma decoderune3':
  assumes "byte c0 = 0xE0 + a" "byte c1 = 0x80 + b" "byte c2 = 0x80 + c"
    "0 \<le> a" "a < 16" "0 \<le> b" "b < 64" "0 \<le> c" "c < 64"
    and "r = a * 4096 + b * 64 + c" "0x7FF < r" "\<not> (0xD800 \<le> r \<and> r \<le> 0xDFFF)"
  shows "decoderune (c0 # c1 # c2 # rest) = (r, 3)"
proof -
  have m0: "(0xE0 + a) mod 16 = a" using lead_mod [of a 16 14] assms by simp
  have m1: "(0x80 + b) mod 64 = b" using lead_mod [of b 64 2] assms by simp
  have m2: "(0x80 + c) mod 64 = c" using lead_mod [of c 64 2] assms by simp
  show ?thesis
    by (rule decoderune3) (use assms in \<open>simp_all add: m0 m1 m2\<close>)
qed

lemma decoderune4':
  assumes "byte c0 = 0xF0 + a" "byte c1 = 0x80 + b" "byte c2 = 0x80 + c" "byte c3 = 0x80 + d"
    "0 \<le> a" "a < 8" "0 \<le> b" "b < 64" "0 \<le> c" "c < 64" "0 \<le> d" "d < 64"
    and "r = a * 262144 + b * 4096 + c * 64 + d" "0xFFFF < r" "r \<le> 0x10FFFF"
  shows "decoderune (c0 # c1 # c2 # c3 # rest) = (r, 4)"
proof -
  have m0: "(0xF0 + a) mod 8 = a" using lead_mod [of a 8 30] assms by simp
  have m1: "(0x80 + b) mod 64 = b" using lead_mod [of b 64 2] assms by simp
  have m2: "(0x80 + c) mod 64 = c" using lead_mod [of c 64 2] assms by simp
  have m3: "(0x80 + d) mod 64 = d" using lead_mod [of d 64 2] assms by simp
  show ?thesis
    by (rule decoderune4) (use assms in \<open>simp_all add: m0 m1 m2 m3\<close>)
qed

lemma split3: "(r::int) = r div 4096 * 4096 + r div 64 mod 64 * 64 + r mod 64"
proof -
  have "r div 4096 = r div 64 div 64" using zdiv_zmult2_eq [of 64 r 64] by simp
  then have "r div 4096 * 64 + r div 64 mod 64 = r div 64" by simp
  then have "(r div 4096 * 64 + r div 64 mod 64) * 64 + r mod 64 = r" by simp
  then show ?thesis by (simp add: algebra_simps)
qed

lemma split4:
  "(r::int) = r div 262144 * 262144 + r div 4096 mod 64 * 4096 + r div 64 mod 64 * 64 + r mod 64"
proof -
  have "r div 262144 = r div 4096 div 64" using zdiv_zmult2_eq [of 64 r 4096] by simp
  then have "r div 262144 * 64 + r div 4096 mod 64 = r div 4096" by simp
  then have "(r div 262144 * 64 + r div 4096 mod 64) * 4096 = r div 4096 * 4096" by simp
  then have "r div 262144 * 262144 + r div 4096 mod 64 * 4096 = r div 4096 * 4096"
    by (simp add: algebra_simps)
  with split3 [of r] show ?thesis by simp
qed

lemma tail_byte: "byte (chr (0x80 + x mod 64)) = 0x80 + x mod 64"
  by (rule byte_chr) simp_all

lemma dec1:
  assumes "0 \<le> r" "r \<le> 0x7F"
  shows "decoderune (chr r # rest) = (r, 1)"
  using assms by (simp add: byte_chr)

lemma dec2:
  fixes r :: int
  assumes "0x80 \<le> r" "r \<le> 0x7FF"
  shows "decoderune (chr (0xC0 + r div 64) # chr (0x80 + r mod 64) # rest) = (r, 2)"
proof -
  have a: "0 \<le> r div 64" "r div 64 < 32" using assms by simp_all
  have c0: "byte (chr (0xC0 + r div 64)) = 0xC0 + r div 64" using a by (intro byte_chr) simp_all
  have "decoderune (chr (0xC0 + r div 64) # chr (0x80 + r mod 64) # rest)
        = (r div 64 * 64 + r mod 64, 2)"
    by (rule decoderune2' [OF c0 tail_byte a]) (use assms in simp_all)
  then show ?thesis by (simp del: decoderune.simps)
qed

lemma dec3:
  fixes r :: int
  assumes "0x800 \<le> r" "r \<le> 0xFFFF" "\<not> (0xD800 \<le> r \<and> r \<le> 0xDFFF)"
  shows "decoderune (chr (0xE0 + r div 4096) # chr (0x80 + r div 64 mod 64) # chr (0x80 + r mod 64)
                     # rest) = (r, 3)"
proof -
  have a: "0 \<le> r div 4096" "r div 4096 < 16" using assms by simp_all
  have c0: "byte (chr (0xE0 + r div 4096)) = 0xE0 + r div 4096" using a by (intro byte_chr) simp_all
  have "0x7FF < r" using assms by simp
  with assms(3) show ?thesis
    by (intro decoderune3' [OF c0 tail_byte tail_byte a _ _ _ _ split3]) simp_all
qed

lemma dec4:
  fixes r :: int
  assumes "0x10000 \<le> r" "r \<le> 0x10FFFF"
  shows "decoderune (chr (0xF0 + r div 262144) # chr (0x80 + r div 4096 mod 64)
                     # chr (0x80 + r div 64 mod 64) # chr (0x80 + r mod 64) # rest) = (r, 4)"
proof -
  have a: "0 \<le> r div 262144" "r div 262144 < 8" using assms by simp_all
  have c0: "byte (chr (0xF0 + r div 262144)) = 0xF0 + r div 262144"
    using a by (intro byte_chr) simp_all
  have "0xFFFF < r" using assms by simp
  with assms(2) show ?thesis
    by (intro decoderune4' [OF c0 tail_byte tail_byte tail_byte a _ _ _ _ _ _ split4]) simp_all
qed

lemma decoderune_string_of_rune:
  assumes "valid_rune r"
  shows "decoderune (string_of_rune r @ rest) = (r, length (string_of_rune r))"
proof -
  from assms have v: "0 \<le> r" "r \<le> 0x10FFFF" "\<not> (0xD800 \<le> r \<and> r \<le> 0xDFFF)"
    by (simp_all add: valid_rune_def)
  consider "r \<le> 0x7F" | "0x80 \<le> r" "r \<le> 0x7FF" | "0x800 \<le> r" "r \<le> 0xFFFF" | "0x10000 \<le> r"
    by linarith
  then show ?thesis
  proof cases
    case 1
    with v dec1 [of r rest] show ?thesis by (simp add: string_of_rune_def del: decoderune.simps)
  next
    case 2
    with v dec2 [of r rest] show ?thesis by (simp add: string_of_rune_def del: decoderune.simps)
  next
    case 3
    with v dec3 [of r rest] show ?thesis
      by (auto simp: string_of_rune_def simp del: decoderune.simps)
  next
    case 4
    with v dec4 [of r rest] show ?thesis by (simp add: string_of_rune_def del: decoderune.simps)
  qed
qed

lemma string_of_rune_nonempty: "string_of_rune r \<noteq> []"
  by (simp add: string_of_rune_def)

lemma decode_string_of_runes:
  "\<forall>r \<in> set rs. valid_rune r \<Longrightarrow>
   decode (concat (map string_of_rune rs)) = map (\<lambda>r. (r, length (string_of_rune r))) rs"
proof (induction rs)
  case Nil
  show ?case by simp
next
  case (Cons r rs)
  let ?rest = "concat (map string_of_rune rs)"
  obtain c cs where s: "string_of_rune r @ ?rest = c # cs"
    using string_of_rune_nonempty [of r] by (cases "string_of_rune r") auto
  have d: "decoderune (c # cs) = (r, length (string_of_rune r))"
    using decoderune_string_of_rune [of r ?rest] Cons.prems by (simp add: s del: decoderune.simps)
  have "decode (c # cs) = (r, length (string_of_rune r)) # decode (drop (length (string_of_rune r)) (c # cs))"
    by (simp add: d del: decoderune.simps)
  also have "drop (length (string_of_rune r)) (c # cs) = ?rest"
    by (simp add: s [symmetric])
  finally show ?case using Cons by (simp add: s del: decoderune.simps decode.simps)
qed

lemma valid_RuneError: "valid_rune RuneError"
  by (simp add: valid_rune_def RuneError_def)

lemma bound2: "(x::int) mod 32 * 64 + y mod 64 \<le> 0x7FF"
  using pos_mod_bound [of 32 x] pos_mod_bound [of 64 y] by linarith

lemma bound3: "(x::int) mod 16 * 4096 + y mod 64 * 64 + z mod 64 \<le> 0xFFFF"
  using pos_mod_bound [of 16 x] pos_mod_bound [of 64 y] pos_mod_bound [of 64 z] by linarith

lemma decoderune_valid: "valid_rune (fst (decoderune s))"
proof (cases s)
  case Nil
  then show ?thesis by (simp add: valid_RuneError)
next
  case (Cons c0 cs)
  have "byte c0 = byte c0 mod 256" by (simp add: byte_def)
  then have nn: "0 \<le> byte c0" using pos_mod_sign [of 256 "byte c0"] by linarith
  consider (one) "byte c0 < 0x80"
    | (two) "0xC0 \<le> byte c0" "byte c0 < 0xE0"
    | (three) "0xE0 \<le> byte c0" "byte c0 < 0xF0"
    | (four) "0xF0 \<le> byte c0" "byte c0 < 0xF8"
    | (bad) "0x80 \<le> byte c0" "byte c0 < 0xC0 \<or> 0xF8 \<le> byte c0"
    by linarith
  then show ?thesis
  proof cases
    case one
    with nn show ?thesis by (simp add: Cons valid_rune_def)
  next
    case two
    then have e: "decoderune (c0 # cs) =
       (case cs of
          c1 # _ \<Rightarrow>
            (let r = byte c0 mod 32 * 64 + byte c1 mod 64
             in if cont c1 \<and> 0x7F < r then (r, 2) else (RuneError, 1))
        | _ \<Rightarrow> (RuneError, 1))"
      by simp
    show ?thesis
    proof (cases cs)
      case Nil
      with e show ?thesis by (simp add: Cons valid_RuneError del: decoderune.simps)
    next
      case (Cons c1 cs')
      with e bound2 [of "byte c0" "byte c1"] show ?thesis
        by (simp add: \<open>s = c0 # cs\<close> Let_def RuneError_def valid_rune_def del: decoderune.simps)
    qed
  next
    case three
    then have e: "decoderune (c0 # cs) =
       (case cs of
          c1 # c2 # _ \<Rightarrow>
            (let r = byte c0 mod 16 * 4096 + byte c1 mod 64 * 64 + byte c2 mod 64
             in if cont c1 \<and> cont c2 \<and> 0x7FF < r \<and> \<not> (0xD800 \<le> r \<and> r \<le> 0xDFFF)
                then (r, 3) else (RuneError, 1))
        | _ \<Rightarrow> (RuneError, 1))"
      by simp
    show ?thesis
    proof (cases cs)
      case Nil
      with e show ?thesis by (simp add: Cons valid_RuneError del: decoderune.simps)
    next
      case c1: (Cons c1 cs')
      show ?thesis
      proof (cases cs')
        case Nil
        with e c1 show ?thesis by (simp add: Cons valid_RuneError del: decoderune.simps)
      next
        case (Cons c2 cs'')
        with e c1 bound3 [of "byte c0" "byte c1" "byte c2"] show ?thesis
          by (simp add: \<open>s = c0 # cs\<close> Let_def RuneError_def valid_rune_def
                del: decoderune.simps)
      qed
    qed
  next
    case four
    then have e: "decoderune (c0 # cs) =
       (case cs of
          c1 # c2 # c3 # _ \<Rightarrow>
            (let r = byte c0 mod 8 * 262144 + byte c1 mod 64 * 4096
                     + byte c2 mod 64 * 64 + byte c3 mod 64
             in if cont c1 \<and> cont c2 \<and> cont c3 \<and> 0xFFFF < r \<and> r \<le> 0x10FFFF
                then (r, 4) else (RuneError, 1))
        | _ \<Rightarrow> (RuneError, 1))"
      by simp
    show ?thesis
      using e
      by (auto simp: Cons Let_def RuneError_def valid_rune_def
               simp del: decoderune.simps split: list.splits)
  next
    case bad
    then show ?thesis by (auto simp: Cons valid_RuneError)
  qed
qed

lemma runes_string_of_runes:
  "\<forall>r \<in> set rs. valid_rune r \<Longrightarrow> runes (string_of_runes rs) = rs"
  by (simp add: runes_def string_of_runes_def decode_string_of_runes comp_def)

lemma Get_string_of_runes:
  "\<forall>r \<in> set rs. valid_rune r \<Longrightarrow> Get trie (string_of_runes rs) = Get_loop trie rs"
  by (simp add: Get_def runes_string_of_runes)

lemma runes_valid: "\<forall>r \<in> set (runes key). valid_rune r"
proof -
  have "\<forall>x \<in> set (decode key). valid_rune (fst x)"
  proof (induction key rule: decode.induct)
    case 1
    show ?case by simp
  next
    case (2 c cs)
    then show ?case using decoderune_valid [of "c # cs"] by (simp del: decoderune.simps)
  qed
  then show ?thesis by (simp add: runes_def)
qed

lemma runes_differ:
  assumes "\<forall>r \<in> set rs. valid_rune r" and "\<forall>r \<in> set rs'. valid_rune r" and "rs' \<noteq> rs"
  shows "runes (string_of_runes rs') \<noteq> runes (string_of_runes rs)"
  using assms by (simp add: runes_string_of_runes)

section \<open>I1 and the nodes reachable from the root\<close>

text \<open>
  In a well-formed trie every entry of a children list is reachable, so I1 is
  the statement that every node reached from the root along one rune or more
  that is childless holds a value.
\<close>

lemma Get_loop_node_at:
  "Get_loop trie rs = (case node_at trie rs of None \<Rightarrow> None | Some n \<Rightarrow> Value n)"
  by (induction rs arbitrary: trie) (auto split: option.splits)

lemma I1_iff_reachable:
  "well_formed trie \<Longrightarrow>
   I1 trie \<longleftrightarrow> (\<forall>rs n. rs \<noteq> [] \<and> node_at trie rs = Some n \<and> isLeaf n \<longrightarrow> Value n \<noteq> None)"
proof (induction trie rule: I1.induct)
  case (1 vo cs)
  let ?t = "RuneTrie vo cs"
  show ?case
  proof
    assume "I1 ?t"
    then show "\<forall>rs n. rs \<noteq> [] \<and> node_at ?t rs = Some n \<and> isLeaf n \<longrightarrow> Value n \<noteq> None"
      using I1_reachable [of ?t] by blast
  next
    assume reach: "\<forall>rs n. rs \<noteq> [] \<and> node_at ?t rs = Some n \<and> isLeaf n \<longrightarrow> Value n \<noteq> None"
    have "(isLeaf c \<longrightarrow> Value c \<noteq> None) \<and> I1 c" if rc: "(r, c) \<in> set cs" for r c
    proof -
      from "1.prems" have d: "distinct (map fst cs)" and wc: "well_formed c"
        using rc by auto
      from d rc have m: "map_of cs r = Some c" by simp
      then have "node_at ?t [r] = Some c" by simp
      with reach have ok: "isLeaf c \<longrightarrow> Value c \<noteq> None" by blast
      have "\<forall>rs n. rs \<noteq> [] \<and> node_at c rs = Some n \<and> isLeaf n \<longrightarrow> Value n \<noteq> None"
      proof (intro allI impI)
        fix rs n assume a: "rs \<noteq> [] \<and> node_at c rs = Some n \<and> isLeaf n"
        with m have "node_at ?t (r # rs) = Some n" by simp
        with reach a show "Value n \<noteq> None" by blast
      qed
      with "1.IH" [OF rc _ wc] have "I1 c" by simp
      with ok show ?thesis by simp
    qed
    then show "I1 ?t" by auto
  qed
qed

section \<open>WalkPath on keys of ASCII bytes\<close>

text \<open>
  When every byte of the key is below \<open>0x80\<close>, every rune is one byte and
  \<open>key[0:i+1]\<close> is the prefix that ends with the rune at \<open>i\<close>. Then
  \<open>WalkPath\<close> calls the walker on the prefixes of the key that hold a value,
  the shortest first, each with its value, up to the first error.
\<close>

definition ascii :: "string \<Rightarrow> bool" where
  "ascii key = (\<forall>c \<in> set key. byte c < 0x80)"

definition prefix_entries :: "'v RuneTrie \<Rightarrow> string \<Rightarrow> (string \<times> 'v) list" where
  "prefix_entries trie key =
    concat (map (\<lambda>n. case Get trie (take n key) of None \<Rightarrow> [] | Some v \<Rightarrow> [(take n key, v)])
                [0..<Suc (length key)])"

lemma decode_ascii: "ascii s \<Longrightarrow> decode s = map (\<lambda>c. (byte c, 1)) s"
  by (induction s) (simp_all add: ascii_def)

lemma runes_ascii: "ascii s \<Longrightarrow> runes s = map byte s"
  by (simp add: runes_def decode_ascii comp_def)

lemma node_at_append:
  "node_at trie (rs @ rs') = (case node_at trie rs of None \<Rightarrow> None | Some n \<Rightarrow> node_at n rs')"
  by (induction rs arbitrary: trie) (auto split: option.splits)

lemma Get_ascii:
  "ascii s \<Longrightarrow> Get trie s = (case node_at trie (map byte s) of None \<Rightarrow> None | Some n \<Rightarrow> Value n)"
  by (simp add: Get_def runes_ascii Get_loop_node_at)

lemma concat_map_Nil: "(\<And>x. x \<in> set xs \<Longrightarrow> f x = []) \<Longrightarrow> concat (map f xs) = []"
  by (induction xs) auto

lemma WalkPath_calls_ascii:
  assumes "ascii (pre @ suf)" and "node_at trie (map byte pre) = Some nd"
  shows "WalkPath_calls nd (pre @ suf) (index_from (length pre) (map (\<lambda>c. (byte c, 1)) suf))
         = concat (map (\<lambda>n. case Get trie (take n (pre @ suf)) of
                               None \<Rightarrow> [] | Some v \<Rightarrow> [(take n (pre @ suf), v)])
                       [Suc (length pre)..<Suc (length (pre @ suf))])"
  using assms
proof (induction suf arbitrary: pre nd)
  case Nil
  show ?case by simp
next
  case (Cons c suf)
  let ?key = "pre @ c # suf"
  let ?F = "\<lambda>n. case Get trie (take n ?key) of None \<Rightarrow> [] | Some v \<Rightarrow> [(take n ?key, v)]"
  have key: "?key = (pre @ [c]) @ suf" by simp
  have asc': "ascii (pre @ [c])" using Cons.prems(1) by (simp add: ascii_def)
  have nd': "node_at trie (map byte (pre @ [c])) = map_of (Children nd) (byte c)"
    using Cons.prems(2) by (simp add: node_at_append split: option.splits)
  have up: "[Suc (length pre)..<Suc (length ?key)]
            = Suc (length pre) # [Suc (length (pre @ [c]))..<Suc (length ?key)]"
    by (simp add: upt_rec)
  have tk: "take (Suc (length pre)) ?key = pre @ [c]" by simp
  show ?case
  proof (cases "map_of (Children nd) (byte c)")
    case None
    have allF: "?F n = []" if "n \<in> set [Suc (length pre)..<Suc (length ?key)]" for n
    proof -
      from that have n: "Suc (length pre) \<le> n" by (simp only: set_upt atLeastLessThan_iff)
      then have "take (Suc (length pre)) (take n ?key) = pre @ [c]"
        by (simp only: take_take min.absorb1 tk)
      with append_take_drop_id [of "Suc (length pre)" "take n ?key"]
      obtain x where x: "take n ?key = (pre @ [c]) @ x" by metis
      have asc: "ascii (take n ?key)"
        unfolding ascii_def using Cons.prems(1) [unfolded ascii_def] in_set_takeD [of _ n ?key]
        by blast
      have "map byte (take n ?key) = map byte (pre @ [c]) @ map byte x"
        by (simp only: x map_append)
      then have "node_at trie (map byte (take n ?key)) = None"
        by (simp only: node_at_append nd' None option.simps)
      then have "Get trie (take n ?key) = None"
        by (simp only: Get_ascii [OF asc] option.simps)
      then show ?thesis by (simp only: option.simps)
    qed
    have "concat (map ?F [Suc (length pre)..<Suc (length ?key)]) = []"
      by (rule concat_map_Nil) (rule allF)
    with None show ?thesis by (simp del: upt_Suc)
  next
    case (Some child)
    have g: "Get trie (pre @ [c]) = Value child"
      using asc' nd' Some by (simp add: Get_ascii del: map_append)
    have nd'': "node_at trie (map byte (pre @ [c])) = Some child"
      by (simp only: nd' Some)
    have ih: "WalkPath_calls child ?key
                (index_from (length (pre @ [c])) (map (\<lambda>c. (byte c, 1)) suf))
              = concat (map ?F [Suc (length (pre @ [c]))..<Suc (length ?key)])"
      by (rule Cons.IH [of "pre @ [c]" child, unfolded append_assoc append_Cons append_Nil,
                        OF Cons.prems(1) nd''])
    have lhs: "WalkPath_calls nd ?key (index_from (length pre) (map (\<lambda>c. (byte c, 1)) (c # suf)))
               = (case Value child of None \<Rightarrow> [] | Some v \<Rightarrow> [(pre @ [c], v)])
                 @ WalkPath_calls child ?key
                     (index_from (length (pre @ [c])) (map (\<lambda>c. (byte c, 1)) suf))"
      using Some by (cases "Value child") simp_all
    have f1: "?F (Suc (length pre)) = (case Value child of None \<Rightarrow> [] | Some v \<Rightarrow> [(pre @ [c], v)])"
      by (simp only: tk g)
    have rhs: "concat (map ?F [Suc (length pre)..<Suc (length ?key)])
               = ?F (Suc (length pre))
                 @ concat (map ?F [Suc (length (pre @ [c]))..<Suc (length ?key)])"
      by (simp only: up list.map concat.simps)
    show ?thesis by (simp only: lhs ih rhs f1)
  qed
qed

lemma WalkPath_ascii:
  assumes "ascii key"
  shows "WalkPath trie key w s = visit w (prefix_entries trie key) s"
proof -
  have "WalkPath_calls trie key (range_string key)
        = concat (map (\<lambda>n. case Get trie (take n key) of None \<Rightarrow> [] | Some v \<Rightarrow> [(take n key, v)])
                      [Suc 0..<Suc (length key)])"
    using WalkPath_calls_ascii [of "[]" key trie trie, unfolded append_Nil] assms
    by (simp add: range_string_def decode_ascii del: upt_Suc)
  moreover have "Get trie [] = Value trie" by (simp add: Get_def runes_def)
  moreover have "[0..<Suc (length key)] = 0 # [Suc 0..<Suc (length key)]" by (simp add: upt_rec)
  ultimately show ?thesis
    by (cases "Value trie") (simp_all add: WalkPath_visit prefix_entries_def del: upt_Suc)
qed

end
